theory Spec2Isabelle
  imports Main "HOL-Library.Word" "HOL-Library.AList" "HOL-Library.Multiset"
begin
unbundle bit_operations_syntax

section \<open>Path keys (pathkey.go)\<close>

type_synonym byte = "8 word"

type_synonym Pathkey = "byte list"

text \<open>
  \<^verbatim>\<open>sha256.Sum256\<close> and \<^verbatim>\<open>sha256.New\<close> come from the Go standard library.
  The digest function is a parameter \<open>sha\<close> of the model; a SHA-256 digest has 32 bytes,
  so the parameter's output is cut or zero-padded to that length.
\<close>

definition Sum256 :: "(byte list \<Rightarrow> byte list) \<Rightarrow> byte list \<Rightarrow> byte list" where
  "Sum256 sha bs = take 32 (sha bs @ replicate 32 0)"

definition bytes_of :: "string \<Rightarrow> byte list" where
  "bytes_of s = map (\<lambda>c. word_of_nat (of_char c)) s"

text \<open>
  \<^verbatim>\<open>copy(k[1:], sum[:])\<close> on a zeroed 16-byte array: byte 0 stays zero, bytes 1..15 are the
  first 15 bytes of the digest.
\<close>

definition pathkey_of_digest :: "byte list \<Rightarrow> Pathkey" where
  "pathkey_of_digest dg = 0 # take 15 dg"

text \<open>
  Modelled from the spec: the case-insensitive variants \<^verbatim>\<open>ComputePathkey(path, caseins)\<close>
  and \<^verbatim>\<open>NewPathkeyHash(caseins)\<close> that pathmap.go calls (the pathkey.go at hand has the
  one-argument forms only). The spec: the key is derived from the SHA-256 of the path, or
  of its case-folded form when \<open>caseins\<close>; the incremental builder folds exactly the byte
  range fed to the hasher. Folding is a parameter \<open>fc\<close> applied to every character.
\<close>

definition fold_case :: "(char \<Rightarrow> char) \<Rightarrow> bool \<Rightarrow> string \<Rightarrow> string" where
  "fold_case fc caseins s = (if caseins then map fc s else s)"

definition ComputePathkey ::
  "(byte list \<Rightarrow> byte list) \<Rightarrow> (char \<Rightarrow> char) \<Rightarrow> string \<Rightarrow> bool \<Rightarrow> Pathkey" where
  "ComputePathkey sha fc path caseins =
     pathkey_of_digest (Sum256 sha (bytes_of (fold_case fc caseins path)))"

text \<open>The state of a \<^verbatim>\<open>PathkeyHash\<close> is the sequence of bytes written to it so far.\<close>

definition NewPathkeyHash :: "byte list" where
  "NewPathkeyHash = []"

definition pkh_Write :: "(char \<Rightarrow> char) \<Rightarrow> bool \<Rightarrow> byte list \<Rightarrow> string \<Rightarrow> byte list" where
  "pkh_Write fc caseins h s = h @ bytes_of (fold_case fc caseins s)"

definition pkh_ComputePathkey :: "(byte list \<Rightarrow> byte list) \<Rightarrow> byte list \<Rightarrow> Pathkey" where
  "pkh_ComputePathkey sha h = pathkey_of_digest (Sum256 sha h)"

section \<open>The path map in memory (pathmap.go)\<close>

definition DIRT :: byte where "DIRT = 0x80"
definition MASK :: byte where "MASK = 0x7f"
definition UNKNOWN :: byte where "UNKNOWN = MASK - 0"
definition OPAQUE :: byte where "OPAQUE = MASK - 1"
definition WHITEOUT :: byte where "WHITEOUT = MASK - 2"
definition NOTEXIST :: byte where "NOTEXIST = MASK - 3"
definition MAXVIS :: byte where "MAXVIS = OPAQUE"
definition MAXIDX :: byte where "MAXIDX = NOTEXIST"

lemmas vis_defs =
  DIRT_def MASK_def UNKNOWN_def OPAQUE_def WHITEOUT_def NOTEXIST_def MAXVIS_def MAXIDX_def

text \<open>
  The struct \<^verbatim>\<open>Pathmap\<close>. The Go map \<open>vm\<close> is an association list with one entry per
  key (\<open>AList.update\<close> and \<open>AList.delete\<close> keep it so); \<^verbatim>\<open>len(pm.vm)\<close> is its length
  and a \<^verbatim>\<open>range\<close> loop visits it in list order (Go leaves the order open). The file
  system \<open>fs\<close> is the state of the storage back end, \<open>None\<close> for Go's \<^verbatim>\<open>nil\<close>; the file
  name and handle are part of that state. The two mutexes and the diagnostic
  \<open>dumpmap\<close> (\<^verbatim>\<open>pathmapdbg\<close> is false) are left out.
\<close>

record 'fs Pathmap =
  Caseins :: bool
  vm :: "(Pathkey \<times> byte) list"
  dl :: "Pathkey list"
  fs :: "'fs option"
  ofs :: int

datatype error = InvalidValue

text \<open>Go's \<^verbatim>\<open>v, ok = m[k]\<close>: the zero value and false when the key is absent.\<close>

definition lookup :: "(Pathkey \<times> byte) list \<Rightarrow> Pathkey \<Rightarrow> byte \<times> bool" where
  "lookup m k = (case map_of m k of None \<Rightarrow> (0, False) | Some v \<Rightarrow> (v, True))"

subsection \<open>Get\<close>

text \<open>The two scanning loops of \<^verbatim>\<open>Get\<close>: advance \<open>i\<close> while the character satisfies \<open>P\<close>.\<close>

function scan :: "(char \<Rightarrow> bool) \<Rightarrow> string \<Rightarrow> nat \<Rightarrow> nat" where
  "scan P path i = (if i < length path \<and> P (path ! i) then scan P path (Suc i) else i)"
  by pat_completeness auto
termination
  by (relation "measure (\<lambda>(P, path, i). length path - i)") auto

declare scan.simps [simp del]

definition slice :: "string \<Rightarrow> nat \<Rightarrow> nat \<Rightarrow> string" where
  "slice path j i = take (i - j) (drop j path)"

text \<open>
  \<^verbatim>\<open>if v, ok = pm.vm[pkh.ComputePathkey()]; ok { isopq = isopq || OPAQUE == v&_MASK }\<close>
  on the loop state \<open>(isopq, v, ok)\<close>.
\<close>

definition get_lookup ::
  "(byte list \<Rightarrow> byte list) \<Rightarrow> 'fs Pathmap \<Rightarrow> byte list \<Rightarrow> bool \<times> byte \<times> bool
     \<Rightarrow> bool \<times> byte \<times> bool" where
  "get_lookup sha pm h st =
     (case lookup (vm pm) (pkh_ComputePathkey sha h) of
        (v, ok) \<Rightarrow> (if ok then fst st \<or> OPAQUE = v AND MASK else fst st, v, ok))"

lemma scan_ge: "i \<le> scan P path i"
proof (induction P path i rule: scan.induct)
  case (1 P path i)
  show ?case
  proof (cases "i < length path \<and> P (path ! i)")
    case True
    with 1 have "Suc i \<le> scan P path (Suc i)" by simp
    moreover have "scan P path i = scan P path (Suc i)"
      using True by (subst scan.simps) simp
    ultimately show ?thesis by simp
  next
    case False
    then have "scan P path i = i" by (subst scan.simps) auto
    then show ?thesis by simp
  qed
qed

lemma scan_le: "i \<le> length path \<Longrightarrow> scan P path i \<le> length path"
proof (induction P path i rule: scan.induct)
  case (1 P path i)
  show ?case
  proof (cases "i < length path \<and> P (path ! i)")
    case True
    with 1 have "scan P path (Suc i) \<le> length path" by simp
    moreover have "scan P path i = scan P path (Suc i)"
      using True by (subst scan.simps) simp
    ultimately show ?thesis by simp
  next
    case False
    then have "scan P path i = i" by (subst scan.simps) auto
    with 1 show ?thesis by simp
  qed
qed

function Get_loop ::
  "(byte list \<Rightarrow> byte list) \<Rightarrow> (char \<Rightarrow> char) \<Rightarrow> 'fs Pathmap \<Rightarrow> string \<Rightarrow> nat \<Rightarrow> byte list
     \<Rightarrow> bool \<times> byte \<times> bool \<Rightarrow> bool \<times> byte \<times> bool" where
  "Get_loop sha fc pm path j h st =
     (let i1 = scan (\<lambda>c. c = CHR ''/'') path j in
      if j = i1 then st
      else
        let h1 = pkh_Write fc (Caseins pm) h (slice path j i1);
            st1 = (if j = 0 then get_lookup sha pm h1 st else st);
            i2 = scan (\<lambda>c. c \<noteq> CHR ''/'') path i1
        in if i1 = i2 then st1
           else
             let h2 = pkh_Write fc (Caseins pm) h1 (slice path i1 i2);
                 st2 = get_lookup sha pm h2 st1
             in Get_loop sha fc pm path i2 h2 st2)"
  by pat_completeness auto
termination
proof (relation "measure (\<lambda>(sha, fc, pm, path, j, h, st). length path - j)")
  show "wf (measure (\<lambda>(sha, fc, pm, path, j, h, st). length path - j))" by simp
next
  fix sha :: "byte list \<Rightarrow> byte list" and fc :: "char \<Rightarrow> char" and pm :: "'fs Pathmap"
    and path :: string and j :: nat and h :: "byte list" and st :: "bool \<times> byte \<times> bool"
    and i1 h1 st1 i2 h2 st2
  assume a: "i1 = scan (\<lambda>c. c = CHR ''/'') path j" "j \<noteq> i1"
    "i2 = scan (\<lambda>c. c \<noteq> CHR ''/'') path i1"
  have "j \<le> i1" using a(1) scan_ge by simp
  moreover have "i1 \<le> i2" using a(3) scan_ge by simp
  ultimately have "j < i2" using a(2) by simp
  moreover have "j < length path"
  proof (rule ccontr)
    assume "\<not> j < length path"
    then have "scan (\<lambda>c. c = CHR ''/'') path j = j" by (subst scan.simps) simp
    with a(1,2) show False by simp
  qed
  ultimately show "((sha, fc, pm, path, i2, h2, st2), (sha, fc, pm, path, j, h, st))
      \<in> measure (\<lambda>(sha, fc, pm, path, j, h, st). length path - j)"
    by simp
qed

declare Get_loop.simps [simp del]

definition Get ::
  "(byte list \<Rightarrow> byte list) \<Rightarrow> (char \<Rightarrow> char) \<Rightarrow> 'fs Pathmap \<Rightarrow> string \<Rightarrow> bool \<times> byte" where
  "Get sha fc pm path =
     (case Get_loop sha fc pm path 0 NewPathkeyHash (False, 0, False) of
        (isopq, v, ok) \<Rightarrow>
          if \<not> ok then (isopq, UNKNOWN)
          else let v1 = v AND MASK in (isopq, if OPAQUE = v1 then 0 else v1))"

subsection \<open>TryGet, IsDirty\<close>

definition TryGet ::
  "(byte list \<Rightarrow> byte list) \<Rightarrow> (char \<Rightarrow> char) \<Rightarrow> 'fs Pathmap \<Rightarrow> string \<Rightarrow> byte \<times> bool" where
  "TryGet sha fc pm path =
     (case lookup (vm pm) (ComputePathkey sha fc path (Caseins pm)) of
        (v, ok) \<Rightarrow> (v AND MASK, ok))"

definition IsDirty ::
  "(byte list \<Rightarrow> byte list) \<Rightarrow> (char \<Rightarrow> char) \<Rightarrow> 'fs Pathmap \<Rightarrow> string \<Rightarrow> bool" where
  "IsDirty sha fc pm path =
     (case lookup (vm pm) (ComputePathkey sha fc path (Caseins pm)) of
        (v, ok) \<Rightarrow> (if ok then 0 \<noteq> v AND DIRT else False))"

subsection \<open>Set, SetIf and the common setter\<close>

definition pm_set :: "'fs Pathmap \<Rightarrow> Pathkey \<Rightarrow> byte \<Rightarrow> byte \<Rightarrow> 'fs Pathmap" where
  "pm_set pm k u v =
     (let dirt0 = u AND DIRT;
          dirt =
            (if 0 = dirt0 then
               let ukind0 = u AND MASK;
                   vkind0 = v AND MASK;
                   ukind = (if MAXIDX \<ge> ukind0 then UNKNOWN else ukind0);
                   vkind = (if MAXIDX \<ge> vkind0 then UNKNOWN else vkind0)
               in if ukind \<noteq> vkind then DIRT else dirt0
             else dirt0)
      in pm\<lparr>vm := AList.update k (dirt OR v) (vm pm),
            dl := (if u AND DIRT \<noteq> dirt then dl pm @ [k] else dl pm)\<rparr>)"

definition Set ::
  "(byte list \<Rightarrow> byte list) \<Rightarrow> (char \<Rightarrow> char) \<Rightarrow> 'fs Pathmap \<Rightarrow> string \<Rightarrow> byte
     \<Rightarrow> error + 'fs Pathmap" where
  "Set sha fc pm path v =
     (if MAXVIS < v then Inl InvalidValue
      else
        let k = ComputePathkey sha fc path (Caseins pm) in
        case lookup (vm pm) k of
          (u0, ok) \<Rightarrow> Inr (pm_set pm k (if \<not> ok then UNKNOWN else u0) v))"

definition SetIf ::
  "(byte list \<Rightarrow> byte list) \<Rightarrow> (char \<Rightarrow> char) \<Rightarrow> 'fs Pathmap \<Rightarrow> string \<Rightarrow> byte
     \<Rightarrow> error + 'fs Pathmap" where
  "SetIf sha fc pm path v =
     (if MAXVIS < v then Inl InvalidValue
      else
        let k = ComputePathkey sha fc path (Caseins pm) in
        case lookup (vm pm) k of
          (u, ok) \<Rightarrow> if \<not> ok then Inr pm else Inr (pm_set pm k u v))"

subsection \<open>Construction\<close>

text \<open>The struct literal that \<^verbatim>\<open>OpenPathmap\<close> starts from.\<close>

definition new_pathmap :: "bool \<Rightarrow> 'fs option \<Rightarrow> 'fs Pathmap" where
  "new_pathmap caseins f = \<lparr>Caseins = caseins, vm = [], dl = [], fs = f, ofs = 0\<rparr>"


section \<open>Replay of the log (read, readTransaction)\<close>

text \<open>
  The \<^verbatim>\<open>bufio.Reader\<close> over \<^verbatim>\<open>_pathmapReader\<close>. No code of the repository looks
  into it, so it is modelled by what it delivers: \<open>rbytes\<close>, the bytes of the file still
  to come, and \<open>rlast\<close>, the result of the storage read that follows the last of them
  (zero for end of file, a negative errno for a failure). A read comes back short only
  at the end of \<open>rbytes\<close>. That covers a storage that answers a read with fewer bytes
  than asked in the middle of the file: \<^verbatim>\<open>_pathmapRead\<close> returns 0 on the first read that
  comes back short and every caller stops reading at 0, so for such a storage \<open>rbytes\<close>
  is the file up to and with the bytes of that read.
\<close>

record reader =
  rbytes :: "byte list"
  rlast :: int

text \<open>
  \<^verbatim>\<open>_pathmapRead\<close>: 0 at end of file and on a short read, the negative error code of a
  failed storage read, else the length asked for. The bytes read and the advanced reader
  come with it.
\<close>

definition pathmapRead :: "reader \<Rightarrow> nat \<Rightarrow> int \<times> byte list \<times> reader" where
  "pathmapRead rdr len =
     (if rbytes rdr = [] then ((if 0 > rlast rdr then rlast rdr else 0), [], rdr)
      else if length (rbytes rdr) \<noteq> len \<and> length (rbytes rdr) < len
      then (0, rbytes rdr, rdr\<lparr>rbytes := []\<rparr>)
      else (int len, take len (rbytes rdr), rdr\<lparr>rbytes := drop len (rbytes rdr)\<rparr>))"

text \<open>
  \<^verbatim>\<open>binary.LittleEndian.Uint16\<close> and \<^verbatim>\<open>PutUint16\<close> on the first two bytes of a slice.
  A \<^verbatim>\<open>uint16\<close> is an integer from 0 to 65535 here.
\<close>

definition Uint16 :: "byte list \<Rightarrow> int" where
  "Uint16 b = uint (b ! 0) + 256 * uint (b ! 1)"

definition PutUint16 :: "int \<Rightarrow> byte list" where
  "PutUint16 c = [word_of_int (c mod 256), word_of_int (c div 256 mod 256)]"

definition is_cmd :: "byte \<Rightarrow> bool" where
  "is_cmd cmd = (0x50 = cmd \<or> 0x53 = cmd \<or> 0x41 = cmd)"

text \<open>The local variables of \<^verbatim>\<open>readTransaction\<close> that live across chunks.\<close>

record rtstate =
  tmp :: "(Pathkey \<times> byte) list"
  hsh :: "byte list"
  ch1 :: bool
  equ :: bool

lemma pathmapRead_pos:
  assumes "pathmapRead rdr len = (n, k, rdr')" "0 < n"
  shows "length (rbytes rdr') + len = length (rbytes rdr) \<and> rlast rdr' = rlast rdr
    \<and> k = take len (rbytes rdr) \<and> rbytes rdr' = drop len (rbytes rdr) \<and> 0 < len"
  using assms by (auto simp: pathmapRead_def split: if_splits)

lemma pathmapRead_le:
  "pathmapRead rdr len = (n, k, rdr') \<Longrightarrow> length (rbytes rdr') \<le> length (rbytes rdr)"
  by (auto simp: pathmapRead_def split: if_splits)

lemma pathmapRead_record:
  assumes "pathmapRead rdr 1 = (n, k0, rdr1)" "0 < n"
    and "pathmapRead rdr1 15 = (n2, k1, rdr2)" "0 < n2"
  shows "length (rbytes rdr2) + 16 = length (rbytes rdr)"
    and "rbytes rdr2 = drop 16 (rbytes rdr)"
    and "k0 @ k1 = take 16 (rbytes rdr)"
    and "rlast rdr2 = rlast rdr"
proof -
  note a = pathmapRead_pos [OF assms(1,2)] and b = pathmapRead_pos [OF assms(3,4)]
  from a b show "length (rbytes rdr2) + 16 = length (rbytes rdr)" by arith
  from a b show "rbytes rdr2 = drop 16 (rbytes rdr)" by simp
  from a b have "k0 @ k1 = take 1 (rbytes rdr) @ take 15 (drop 1 (rbytes rdr))" by simp
  also have "\<dots> = take (1 + 15) (rbytes rdr)" by (simp only: take_add)
  finally show "k0 @ k1 = take 16 (rbytes rdr)" by simp
  from a b show "rlast rdr2 = rlast rdr" by simp
qed

text \<open>
  The record loop of a chunk, \<^verbatim>\<open>for idx = 0; cnt > idx; idx++\<close>. The first component of
  the result is the value \<^verbatim>\<open>readTransaction\<close> returns from inside the loop, if it does;
  the second is \<open>idx\<close> when the loop is left.
\<close>

function rt_records ::
  "'fs Pathmap \<Rightarrow> rtstate \<Rightarrow> int \<Rightarrow> int \<Rightarrow> reader
     \<Rightarrow> int option \<times> int \<times> 'fs Pathmap \<times> rtstate \<times> reader" where
  "rt_records pm st cnt idx rdr =
     (if cnt > idx then
        (case pathmapRead rdr 1 of
           (n, k0, rdr1) \<Rightarrow>
             if 0 \<ge> n then (Some n, idx, pm, st, rdr1)
             else if 0 = hd k0 AND DIRT then (None, idx, pm, st, rdr)
             else
               (case pathmapRead rdr1 15 of
                  (n, k1, rdr2) \<Rightarrow>
                    if 0 \<ge> n then (Some n, idx, pm, st, rdr2)
                    else
                      let pm1 = pm\<lparr>ofs := ofs pm + 16\<rparr>;
                          k = k0 @ k1;
                          st1 = st\<lparr>hsh := hsh st @ k\<rparr>;
                          v = hd k AND MASK;
                          st2 = st1\<lparr>tmp := AList.update (0 # tl k) v (tmp st1)\<rparr>
                      in rt_records pm1 st2 cnt (idx + 1) rdr2))
      else (None, idx, pm, st, rdr))"
  by pat_completeness auto
termination
  by (relation "measure (\<lambda>(pm, st, cnt, idx, rdr). nat (cnt - idx))") auto

declare rt_records.simps [simp del]

lemma rt_records_le:
  "rt_records pm st cnt idx rdr = (r, idx', pm', st', rdr') \<Longrightarrow>
     length (rbytes rdr') \<le> length (rbytes rdr)"
proof (induction pm st cnt idx rdr rule: rt_records.induct)
  case (1 pm st cnt idx rdr)
  show ?case
  proof (cases "cnt > idx")
    case False
    with "1.prems" show ?thesis by (subst (asm) rt_records.simps) simp
  next
    case True
    obtain n k0 rdr1 where r1: "pathmapRead rdr 1 = (n, k0, rdr1)"
      by (cases "pathmapRead rdr 1")
    obtain n2 k1 rdr2 where r2: "pathmapRead rdr1 15 = (n2, k1, rdr2)"
      by (cases "pathmapRead rdr1 15")
    note l1 = pathmapRead_le [OF r1] and l2 = pathmapRead_le [OF r2]
    show ?thesis
    proof (cases "0 \<ge> n \<or> 0 = hd k0 AND DIRT \<or> 0 \<ge> n2")
      case True
      with "1.prems" \<open>cnt > idx\<close> r1 r2 l1 l2 show ?thesis
        by (subst (asm) rt_records.simps) (auto split: if_splits)
    next
      case False
      with "1.prems" \<open>cnt > idx\<close> r1 r2 have
        "rt_records (pm\<lparr>ofs := ofs pm + 16\<rparr>)
           (st\<lparr>hsh := hsh st @ (k0 @ k1),
               tmp := AList.update (0 # tl (k0 @ k1)) (hd (k0 @ k1) AND MASK) (tmp st)\<rparr>)
           cnt (idx + 1) rdr2 = (r, idx', pm', st', rdr')"
        by (subst (asm) rt_records.simps) (simp add: Let_def)
      moreover from False have "\<not> n \<le> 0" "0 \<noteq> hd k0 AND DIRT" "\<not> n2 \<le> 0" by simp_all
      ultimately have "length (rbytes rdr') \<le> length (rbytes rdr2)"
        using "1.IH" [OF \<open>cnt > idx\<close> r1 [symmetric] refl _ _ r2 [symmetric] refl _ refl refl refl refl refl]
        by simp
      with l1 l2 show ?thesis by simp
    qed
  qed
qed

text \<open>
  What a committed transaction does with its temp map:
  \<^verbatim>\<open>for k, v := range tmp { switch v { case WHITEOUT, OPAQUE: ...; case NOTEXIST: ... } }\<close>.
\<close>

definition apply_record :: "Pathkey \<times> byte \<Rightarrow> (Pathkey \<times> byte) list \<Rightarrow> (Pathkey \<times> byte) list" where
  "apply_record kv m =
     (case kv of
        (k, v) \<Rightarrow>
          if v = WHITEOUT \<or> v = OPAQUE then AList.update k v m
          else if v = NOTEXIST then AList.delete k m
          else m)"

lemma two_reads_lt:
  "(x, a, b) = pathmapRead rdr (Suc 0) \<Longrightarrow> \<not> x \<le> 0 \<Longrightarrow> (xb, aa, ba) = pathmapRead b 15 \<Longrightarrow>
     \<not> xb \<le> 0 \<Longrightarrow> length (rbytes ba) < length (rbytes rdr)"
  using pathmapRead_record(1) [of rdr x a b xb aa ba] by simp

lemma chunk_lt:
  "(x, a, b) = pathmapRead rdr (Suc 0) \<Longrightarrow> \<not> x \<le> 0 \<Longrightarrow> (xb, aa, ba) = pathmapRead b 15 \<Longrightarrow>
     \<not> xb \<le> 0 \<Longrightarrow> (r, ab, ac, ad, bb) = rt_records pm st cnt idx ba \<Longrightarrow>
     length (rbytes bb) < length (rbytes rdr)"
  using two_reads_lt [of x a b rdr xb aa ba] rt_records_le [of pm st cnt idx ba r ab ac ad bb]
  by simp

text \<open>
  The test of the header loop: before chunk 1 has been seen a header must begin with
  \<open>'1'\<close>, after it with \<open>'0'\<close>; in both cases the command must be one of P, S, A.
\<close>

definition chunk_header_ok :: "bool \<Rightarrow> byte list \<Rightarrow> bool" where
  "chunk_header_ok c1 k = ((if \<not> c1 then 0x31 else 0x30) = k ! 0 \<and> is_cmd (k ! 1))"

text \<open>
  \<^verbatim>\<open>readTransaction\<close>: the outer loop, one round per chunk. It begins with the header
  loop (before chunk 1, trash is skipped; after chunk 1, a byte \<open>'1'\<close> is unread and
  anything else but a chunk not-1 is consumed, and both abort the transaction), reads the
  chunk's records, compares count and hash, and commits on the commands S and A. The
  result is the return value, the path map and the reader.
\<close>

function rt_chunks ::
  "(byte list \<Rightarrow> byte list) \<Rightarrow> 'fs Pathmap \<Rightarrow> rtstate \<Rightarrow> reader \<Rightarrow> int \<times> 'fs Pathmap \<times> reader" where
  "rt_chunks sha pm st rdr =
     (case pathmapRead rdr 1 of
        (n, k0, rdr1) \<Rightarrow>
          if 0 \<ge> n then (n, pm, rdr1)
          else if ch1 st \<and> 0x31 = hd k0 then (1, pm, rdr)
          else
            (case pathmapRead rdr1 15 of
               (n, k1, rdr2) \<Rightarrow>
                 if 0 \<ge> n then (n, pm, rdr2)
                 else
                   let pm1 = pm\<lparr>ofs := ofs pm + 16\<rparr>;
                       k = k0 @ k1;
                       cmd = k ! 1
                   in
                     if \<not> chunk_header_ok (ch1 st) k then
                       (if \<not> ch1 st then rt_chunks sha pm1 st rdr2 else (1, pm1, rdr2))
                     else
                       let cnt = Uint16 (drop 2 k);
                           sum = take 12 (drop 4 k)
                       in
                         (case rt_records pm1 (st\<lparr>ch1 := True\<rparr>) cnt 0 rdr2 of
                            (Some n, idx, pm2, st2, rdr3) \<Rightarrow> (n, pm2, rdr3)
                          | (None, idx, pm2, st2, rdr3) \<Rightarrow>
                              let equ1 = (equ st2 \<and>
                                    (cnt = idx \<and> sum = take 12 (Sum256 sha (hsh st2))))
                              in
                                if 0x53 = cmd \<or> 0x41 = cmd then
                                  (if equ1 then
                                     (1, pm2\<lparr>vm := fold apply_record (tmp st2)
                                            (if 0x53 = cmd then [] else vm pm2)\<rparr>, rdr3)
                                   else (1, pm2, rdr3))
                                else rt_chunks sha pm2 (st2\<lparr>equ := equ1\<rparr>) rdr3)))"
  by pat_completeness auto
termination
  apply (relation "measure (\<lambda>(sha, pm, st, rdr). length (rbytes rdr))")
   apply simp
  apply (auto elim: two_reads_lt chunk_lt)
  done

declare rt_chunks.simps [simp del]

lemma pathmapRead_rlast:
  "pathmapRead rdr len = (n, k, rdr') \<Longrightarrow> rlast rdr' = rlast rdr"
  by (auto simp: pathmapRead_def split: if_splits)

lemma pathmapRead_code:
  "pathmapRead rdr len = (n, k, rdr') \<Longrightarrow> n \<le> 0 \<Longrightarrow> 0 \<le> rlast rdr \<Longrightarrow> n = 0"
  by (auto simp: pathmapRead_def split: if_splits)

lemma rt_records_step:
  assumes "cnt > idx" "pathmapRead rdr 1 = (n, k0, rdr1)" "\<not> 0 \<ge> n" "0 \<noteq> hd k0 AND DIRT"
    "pathmapRead rdr1 15 = (n2, k1, rdr2)" "\<not> 0 \<ge> n2"
  shows "rt_records pm st cnt idx rdr =
     rt_records (pm\<lparr>ofs := ofs pm + 16\<rparr>)
       (st\<lparr>hsh := hsh st @ (k0 @ k1),
           tmp := AList.update (0 # tl (k0 @ k1)) (hd (k0 @ k1) AND MASK) (tmp st)\<rparr>)
       cnt (idx + 1) rdr2"
  using assms by (subst rt_records.simps) (simp add: Let_def)

lemma rt_records_inv:
  "rt_records pm st cnt idx rdr = (r, idx', pm', st', rdr') \<Longrightarrow>
     rlast rdr' = rlast rdr \<and> vm pm' = vm pm \<and> Caseins pm' = Caseins pm \<and> dl pm' = dl pm
     \<and> fs pm' = fs pm \<and> equ st' = equ st \<and> ch1 st' = ch1 st
     \<and> (\<forall>m. r = Some m \<longrightarrow> m \<le> 0 \<and> (0 \<le> rlast rdr \<longrightarrow> m = 0))"
proof (induction pm st cnt idx rdr rule: rt_records.induct)
  case (1 pm st cnt idx rdr)
  show ?case
  proof (cases "cnt > idx")
    case False
    with "1.prems" show ?thesis by (subst (asm) rt_records.simps) auto
  next
    case True
    obtain n k0 rdr1 where r1: "pathmapRead rdr 1 = (n, k0, rdr1)"
      by (cases "pathmapRead rdr 1")
    obtain n2 k1 rdr2 where r2: "pathmapRead rdr1 15 = (n2, k1, rdr2)"
      by (cases "pathmapRead rdr1 15")
    note l1 = pathmapRead_rlast [OF r1] and l2 = pathmapRead_rlast [OF r2]
    note c1 = pathmapRead_code [OF r1] and c2 = pathmapRead_code [OF r2]
    show ?thesis
    proof (cases "0 \<ge> n \<or> 0 = hd k0 AND DIRT \<or> 0 \<ge> n2")
      case True
      with "1.prems" \<open>cnt > idx\<close> r1 r2 l1 l2 c1 c2 show ?thesis
        by (subst (asm) rt_records.simps) (auto split: if_splits)
    next
      case False
      then have f: "\<not> 0 \<ge> n" "0 \<noteq> hd k0 AND DIRT" "\<not> 0 \<ge> n2" by simp_all
      from "1.prems" rt_records_step [OF \<open>cnt > idx\<close> r1 f(1,2) r2 f(3), where pm = pm and st = st] have
        "rt_records (pm\<lparr>ofs := ofs pm + 16\<rparr>)
           (st\<lparr>hsh := hsh st @ (k0 @ k1),
               tmp := AList.update (0 # tl (k0 @ k1)) (hd (k0 @ k1) AND MASK) (tmp st)\<rparr>)
           cnt (idx + 1) rdr2 = (r, idx', pm', st', rdr')"
        by simp
      with "1.IH" [OF \<open>cnt > idx\<close> r1 [symmetric] refl _ _ r2 [symmetric] refl _ refl refl refl refl refl]
        f l1 l2
      show ?thesis by simp
    qed
  qed
qed

text \<open>One round of the outer loop, case by case.\<close>

lemma rt_chunks_eof:
  "pathmapRead rdr 1 = (n1, k0, rdr1) \<Longrightarrow> 0 \<ge> n1 \<Longrightarrow> rt_chunks sha pm st rdr = (n1, pm, rdr1)"
  by (subst rt_chunks.simps) simp

lemma rt_chunks_unread:
  "pathmapRead rdr 1 = (n1, k0, rdr1) \<Longrightarrow> 0 < n1 \<Longrightarrow> ch1 st \<Longrightarrow> 0x31 = hd k0 \<Longrightarrow>
     rt_chunks sha pm st rdr = (1, pm, rdr)"
  by (subst rt_chunks.simps) simp

lemma rt_chunks_short:
  "pathmapRead rdr 1 = (n1, k0, rdr1) \<Longrightarrow> 0 < n1 \<Longrightarrow> \<not> (ch1 st \<and> 0x31 = hd k0) \<Longrightarrow>
   pathmapRead rdr1 15 = (n2, k1, rdr2) \<Longrightarrow> 0 \<ge> n2 \<Longrightarrow>
     rt_chunks sha pm st rdr = (n2, pm, rdr2)"
  by (subst rt_chunks.simps) auto

lemma rt_chunks_trash:
  "pathmapRead rdr 1 = (n1, k0, rdr1) \<Longrightarrow> 0 < n1 \<Longrightarrow> \<not> (ch1 st \<and> 0x31 = hd k0) \<Longrightarrow>
   pathmapRead rdr1 15 = (n2, k1, rdr2) \<Longrightarrow> 0 < n2 \<Longrightarrow> \<not> chunk_header_ok (ch1 st) (k0 @ k1) \<Longrightarrow>
     rt_chunks sha pm st rdr =
       (if \<not> ch1 st then rt_chunks sha (pm\<lparr>ofs := ofs pm + 16\<rparr>) st rdr2
        else (1, pm\<lparr>ofs := ofs pm + 16\<rparr>, rdr2))"
  by (subst rt_chunks.simps) (auto simp: Let_def)

lemma rt_chunks_chunk:
  "pathmapRead rdr 1 = (n1, k0, rdr1) \<Longrightarrow> 0 < n1 \<Longrightarrow> \<not> (ch1 st \<and> 0x31 = hd k0) \<Longrightarrow>
   pathmapRead rdr1 15 = (n2, k1, rdr2) \<Longrightarrow> 0 < n2 \<Longrightarrow> chunk_header_ok (ch1 st) (k0 @ k1) \<Longrightarrow>
   rt_records (pm\<lparr>ofs := ofs pm + 16\<rparr>) (st\<lparr>ch1 := True\<rparr>) (Uint16 (drop 2 (k0 @ k1))) 0 rdr2
     = (r, idx, pm2, st2, rdr3) \<Longrightarrow>
     rt_chunks sha pm st rdr =
       (case r of
          Some n \<Rightarrow> (n, pm2, rdr3)
        | None \<Rightarrow>
            let equ1 = (equ st2 \<and> (Uint16 (drop 2 (k0 @ k1)) = idx
                  \<and> take 12 (drop 4 (k0 @ k1)) = take 12 (Sum256 sha (hsh st2))))
            in
              if 0x53 = (k0 @ k1) ! 1 \<or> 0x41 = (k0 @ k1) ! 1 then
                (if equ1 then
                   (1, pm2\<lparr>vm := fold apply_record (tmp st2)
                          (if 0x53 = (k0 @ k1) ! 1 then [] else vm pm2)\<rparr>, rdr3)
                 else (1, pm2, rdr3))
              else rt_chunks sha pm2 (st2\<lparr>equ := equ1\<rparr>) rdr3)"
  by (subst rt_chunks.simps) (auto simp: Let_def split: option.splits)

lemma rt_chunks_reader:
  "rt_chunks sha pm st rdr = (n, pm', rdr') \<Longrightarrow>
     length (rbytes rdr') \<le> length (rbytes rdr) \<and> rlast rdr' = rlast rdr
     \<and> (0 < n \<and> \<not> ch1 st \<longrightarrow> length (rbytes rdr') < length (rbytes rdr))
     \<and> (0 \<le> rlast rdr \<longrightarrow> n = 0 \<or> n = 1)"
proof (induction "length (rbytes rdr)" arbitrary: pm st rdr rule: less_induct)
  case less
  obtain n1 k0 rdr1 where r1: "pathmapRead rdr 1 = (n1, k0, rdr1)"
    by (cases "pathmapRead rdr 1")
  obtain n2 k1 rdr2 where r2: "pathmapRead rdr1 15 = (n2, k1, rdr2)"
    by (cases "pathmapRead rdr1 15")
  note l1 = pathmapRead_rlast [OF r1] and l2 = pathmapRead_rlast [OF r2]
  note c1 = pathmapRead_code [OF r1] and c2 = pathmapRead_code [OF r2]
  note e1 = pathmapRead_le [OF r1] and e2 = pathmapRead_le [OF r2]
  consider (eof) "0 \<ge> n1" | (unread) "0 < n1" "ch1 st" "0x31 = hd k0"
    | (short) "0 < n1" "\<not> (ch1 st \<and> 0x31 = hd k0)" "0 \<ge> n2"
    | (block) "0 < n1" "\<not> (ch1 st \<and> 0x31 = hd k0)" "0 < n2"
    by fastforce
  then show ?case
  proof cases
    case eof
    from less.prems rt_chunks_eof [OF r1 eof, of sha pm st] c1 [OF eof] e1 l1 eof
    show ?thesis by auto
  next
    case unread
    from less.prems rt_chunks_unread [OF r1 unread, of sha pm] unread
    show ?thesis by auto
  next
    case short
    from less.prems rt_chunks_short [OF r1 short(1,2) r2 short(3), of sha pm] c2 [OF short(3)] e1 e2 l1 l2 short
    show ?thesis by auto
  next
    case block
    note rec = pathmapRead_record [OF r1 block(1) r2 block(3)]
    show ?thesis
    proof (cases "chunk_header_ok (ch1 st) (k0 @ k1)")
      case False
      note u = rt_chunks_trash [OF r1 block(1,2) r2 block(3) False, of sha pm]
      show ?thesis
      proof (cases "ch1 st")
        case True
        with less.prems u rec show ?thesis by auto
      next
        case False
        with less.prems u have "rt_chunks sha (pm\<lparr>ofs := ofs pm + 16\<rparr>) st rdr2 = (n, pm', rdr')"
          by simp
        from less.hyps [OF _ this] rec show ?thesis by simp
      qed
    next
      case True
      obtain r idx pm2 st2 rdr3 where
        rr: "rt_records (pm\<lparr>ofs := ofs pm + 16\<rparr>) (st\<lparr>ch1 := True\<rparr>)
               (Uint16 (drop 2 (k0 @ k1))) 0 rdr2 = (r, idx, pm2, st2, rdr3)"
        by (cases "rt_records (pm\<lparr>ofs := ofs pm + 16\<rparr>) (st\<lparr>ch1 := True\<rparr>)
               (Uint16 (drop 2 (k0 @ k1))) 0 rdr2")
      note ri = rt_records_inv [OF rr] and rl = rt_records_le [OF rr]
      note u = rt_chunks_chunk [OF r1 block(1,2) r2 block(3) True rr, of sha]
      show ?thesis
      proof (cases r)
        case (Some m)
        with less.prems u have "(n, pm', rdr') = (m, pm2, rdr3)" by simp
        with ri rl rec Some show ?thesis by auto
      next
        case None
        show ?thesis
        proof (cases "0x53 = (k0 @ k1) ! 1 \<or> 0x41 = (k0 @ k1) ! 1")
          case True
          with less.prems u None have "n = 1 \<and> rdr' = rdr3"
            by (auto simp: Let_def split: if_splits)
          with ri rl rec show ?thesis by auto
        next
          case False
          with less.prems u None obtain e where
            "rt_chunks sha pm2 (st2\<lparr>equ := e\<rparr>) rdr3 = (n, pm', rdr')"
            by (auto simp: Let_def)
          from less.hyps [OF _ this] ri rl rec show ?thesis by auto
        qed
      qed
    qed
  qed
qed

definition readTransaction ::
  "(byte list \<Rightarrow> byte list) \<Rightarrow> 'fs Pathmap \<Rightarrow> reader \<Rightarrow> int \<times> 'fs Pathmap \<times> reader" where
  "readTransaction sha pm rdr =
     rt_chunks sha pm \<lparr>tmp = [], hsh = [], ch1 = False, equ = True\<rparr> rdr"

lemma readTransaction_progress:
  "readTransaction sha pm rdr = (n, pm', rdr') \<Longrightarrow> 0 < n \<Longrightarrow>
     length (rbytes rdr') < length (rbytes rdr)"
  using rt_chunks_reader [of sha pm "\<lparr>tmp = [], hsh = [], ch1 = False, equ = True\<rparr>" rdr n pm' rdr']
  by (simp add: readTransaction_def)

text \<open>
  \<^verbatim>\<open>read\<close>: transactions are read until one returns an error (returned as it is) or 0
  (end of file, and \<^verbatim>\<open>read\<close> returns 1). The reader is the one built over the file at
  \<open>pm.ofs\<close>.
\<close>

function read ::
  "(byte list \<Rightarrow> byte list) \<Rightarrow> 'fs Pathmap \<Rightarrow> reader \<Rightarrow> int \<times> 'fs Pathmap" where
  "read sha pm rdr =
     (case readTransaction sha pm rdr of
        (n, pm1, rdr1) \<Rightarrow>
          if 0 > n then (n, pm1)
          else if 0 = n then (1, pm1)
          else read sha pm1 rdr1)"
  by pat_completeness auto
termination
  apply (relation "measure (\<lambda>(sha, pm, rdr). length (rbytes rdr))")
   apply simp
  apply (auto dest: readTransaction_progress [OF sym])
  done

declare read.simps [simp del]

section \<open>The storage back end\<close>

text \<open>
  \<^verbatim>\<open>fuse.FileSystemInterface\<close> is an interface of the cgofuse package; the path map
  uses seven of its methods on one file. The model takes them as a record of functions
  on a storage state \<open>'fs\<close> (the file name and the handle belong to that state). The
  reads go through the buffered reader above, so \<open>fs_Reader\<close> gives what the reader over
  the file delivers. The errno values are those of Linux; nothing below depends on
  them but their being positive.
\<close>

record 'fs fsops =
  fs_Open :: "'fs \<Rightarrow> int \<times> 'fs"
  fs_Create :: "'fs \<Rightarrow> int \<times> 'fs"
  fs_Mknod :: "'fs \<Rightarrow> int \<times> 'fs"
  fs_Reader :: "'fs \<Rightarrow> reader"
  fs_Write :: "'fs \<Rightarrow> byte list \<Rightarrow> int \<Rightarrow> int \<times> 'fs"
  fs_Fsync :: "'fs \<Rightarrow> int \<times> 'fs"
  fs_Truncate :: "'fs \<Rightarrow> int \<Rightarrow> int \<times> 'fs"

definition EPERM :: int where "EPERM = 1"
definition EIO :: int where "EIO = 5"
definition ENOSYS :: int where "ENOSYS = 38"

section \<open>Opening a path map\<close>

definition OpenPathmap ::
  "'fs fsops \<Rightarrow> (byte list \<Rightarrow> byte list) \<Rightarrow> 'fs option \<Rightarrow> bool \<Rightarrow> int \<times> 'fs Pathmap option" where
  "OpenPathmap ops sha f caseins =
     (case f of
        None \<Rightarrow> (0, Some (new_pathmap caseins None))
      | Some s \<Rightarrow>
          (case fs_Open ops s of
             (errc, s1) \<Rightarrow>
               (case (if 0 \<noteq> errc then
                        (case fs_Create ops s1 of
                           (errc1, s2) \<Rightarrow>
                             if - ENOSYS = errc1 then
                               (case fs_Mknod ops s2 of
                                  (errc2, s3) \<Rightarrow>
                                    if 0 = errc2 then fs_Open ops s3 else (errc2, s3))
                             else (errc1, s2))
                      else (errc, s1)) of
                  (errc3, s4) \<Rightarrow>
                    if 0 \<noteq> errc3 then (errc3, None)
                    else
                      (case read sha (new_pathmap caseins (Some s4)) (fs_Reader ops s4) of
                         (n, pm) \<Rightarrow> if 0 > n then (n, None) else (0, Some pm)))))"

section \<open>Writing the log (Write, writeBegin, writeTransaction, writeEnd)\<close>

text \<open>
  \<^verbatim>\<open>writeBegin\<close>: the map to be written and the path map with its dirty bits cleared and
  its dirty list emptied. In the incremental case the dirty list is walked; a key that
  is not in the map reads as the zero value.
\<close>

definition durable :: "byte \<Rightarrow> bool" where
  "durable v = (v AND MASK = WHITEOUT \<or> v AND MASK = OPAQUE)"

definition writeBegin_incr ::
  "Pathkey \<Rightarrow> (Pathkey \<times> byte) list \<times> (Pathkey \<times> byte) list
     \<Rightarrow> (Pathkey \<times> byte) list \<times> (Pathkey \<times> byte) list" where
  "writeBegin_incr k acc =
     (case acc of
        (vmo, m) \<Rightarrow>
          (case lookup m k of
             (v, ok) \<Rightarrow>
               (AList.update k (if durable v then v else NOTEXIST) vmo,
                AList.update k (v AND MASK) m)))"

definition writeBegin_full ::
  "Pathkey \<times> byte \<Rightarrow> (Pathkey \<times> byte) list \<times> (Pathkey \<times> byte) list
     \<Rightarrow> (Pathkey \<times> byte) list \<times> (Pathkey \<times> byte) list" where
  "writeBegin_full kv acc =
     (case (kv, acc) of
        ((k, v), (vmo, m)) \<Rightarrow>
          ((if durable v then AList.update k v vmo else vmo),
           AList.update k (v AND MASK) m))"

definition writeBegin ::
  "'fs Pathmap \<Rightarrow> bool \<Rightarrow> (Pathkey \<times> byte) list \<times> 'fs Pathmap" where
  "writeBegin pm incremental =
     (case (if incremental then fold writeBegin_incr (dl pm) ([], vm pm)
            else fold writeBegin_full (vm pm) ([], vm pm)) of
        (vmo, m) \<Rightarrow> (vmo, pm\<lparr>vm := m, dl := []\<rparr>))"

text \<open>
  \<^verbatim>\<open>writeEnd\<close>, the deferred call: on success the offset is advanced, on failure every
  key written with its dirty bit set and clean in memory is made dirty again.
\<close>

definition writeEnd_step :: "Pathkey \<times> byte \<Rightarrow> 'fs Pathmap \<Rightarrow> 'fs Pathmap" where
  "writeEnd_step kv pm =
     (case kv of
        (k, v) \<Rightarrow>
          if 0 = v AND DIRT then pm
          else
            (case lookup (vm pm) k of
               (v1, ok) \<Rightarrow>
                 if 0 \<noteq> v1 AND DIRT then pm
                 else pm\<lparr>vm := AList.update k (DIRT OR v1) (vm pm), dl := dl pm @ [k]\<rparr>))"

definition writeEnd ::
  "'fs Pathmap \<Rightarrow> int \<Rightarrow> int \<Rightarrow> (Pathkey \<times> byte) list \<Rightarrow> 'fs Pathmap" where
  "writeEnd pm n ofs1 vmo =
     (if 0 < n then pm\<lparr>ofs := ofs1\<rparr>
      else if 0 > n then fold writeEnd_step vmo pm
      else pm)"

text \<open>
  The variables of \<^verbatim>\<open>writeTransaction\<close> that its closure \<^verbatim>\<open>write\<close> shares with the loop:
  \<open>wbuf\<close> holds the records in \<^verbatim>\<open>buf[Pathkeylen:ptr]\<close>, so \<^verbatim>\<open>ptr\<close> is 16 plus its
  length; \<open>whsh\<close> holds the bytes written to the running hash.
\<close>

record wstate =
  wbuf :: "byte list"
  whsh :: "byte list"
  chi :: byte
  wcnt :: int
  wofs :: int

definition ptr :: "wstate \<Rightarrow> int" where
  "ptr w = 16 + int (length (wbuf w))"

definition write_chunk ::
  "'fs fsops \<Rightarrow> (byte list \<Rightarrow> byte list) \<Rightarrow> 'fs \<Rightarrow> wstate \<Rightarrow> byte \<Rightarrow> int \<times> 'fs \<times> wstate" where
  "write_chunk ops sha s w cmd =
     (let h = whsh w @ wbuf w;
          hdr = [chi w, cmd] @ PutUint16 (wcnt w) @ take 12 (Sum256 sha h);
          w1 = w\<lparr>whsh := h\<rparr>
      in case fs_Write ops s (hdr @ wbuf w) (wofs w) of
           (n, s1) \<Rightarrow>
             if 0 > n then (n, s1, w1)
             else if ptr w \<noteq> n then (- EIO, s1, w1)
             else (n, s1, w1\<lparr>wofs := wofs w + n\<rparr>))"

text \<open>
  The loop over the map to be written. A full buffer (4096 slots of 16 bytes, the first
  one for the header) is written as a chunk P before the next record goes in. The first
  component of the result is the error the function returns from inside the loop, if any.
\<close>

fun wt_loop ::
  "'fs fsops \<Rightarrow> (byte list \<Rightarrow> byte list) \<Rightarrow> 'fs \<Rightarrow> wstate \<Rightarrow> (Pathkey \<times> byte) list
     \<Rightarrow> int option \<times> 'fs \<times> wstate" where
  "wt_loop ops sha s w [] = (None, s, w)"
| "wt_loop ops sha s w ((k, v) # kvs) =
     (case (if 4096 * 16 \<le> ptr w then
              (case write_chunk ops sha s w 0x50 of
                 (n, s1, w1) \<Rightarrow>
                   if 0 > n then (Some n, s1, w1)
                   else (None, s1, w1\<lparr>wbuf := [], chi := 0x30, wcnt := 0\<rparr>))
            else (None, s, w)) of
        (Some n, s1, w1) \<Rightarrow> (Some n, s1, w1)
      | (None, s1, w1) \<Rightarrow>
          wt_loop ops sha s1
            (w1\<lparr>wbuf := wbuf w1 @ ((DIRT OR v) # drop 1 k), wcnt := (wcnt w1 + 1) mod 65536\<rparr>)
            kvs)"

text \<open>
  The body of \<^verbatim>\<open>writeTransaction\<close> between \<^verbatim>\<open>writeBegin\<close> and the deferred
  \<^verbatim>\<open>writeEnd\<close>: the return value, the storage and the offset reached.
\<close>

definition wt_sync :: "'fs fsops \<Rightarrow> bool \<Rightarrow> 'fs \<Rightarrow> int \<times> 'fs" where
  "wt_sync ops sync s = (if sync then fs_Fsync ops s else (0, s))"

text \<open>
  All the chunk writes of a transaction: the loop, then the last chunk with the command
  of the transaction if the buffer holds a record (\<^verbatim>\<open>if Pathkeylen < ptr\<close>).
\<close>

definition wt_chunks ::
  "'fs fsops \<Rightarrow> (byte list \<Rightarrow> byte list) \<Rightarrow> 'fs \<Rightarrow> wstate \<Rightarrow> (Pathkey \<times> byte) list \<Rightarrow> byte
     \<Rightarrow> int option \<times> 'fs \<times> wstate" where
  "wt_chunks ops sha s w vmo cmd =
     (case wt_loop ops sha s w vmo of
        (Some n, s1, w1) \<Rightarrow> (Some n, s1, w1)
      | (None, s1, w1) \<Rightarrow>
          if 16 < ptr w1 then
            (case write_chunk ops sha s1 w1 cmd of
               (n, s2, w2) \<Rightarrow> (if 0 > n then Some n else None, s2, w2))
          else (None, s1, w1))"

definition wt_io ::
  "'fs fsops \<Rightarrow> (byte list \<Rightarrow> byte list) \<Rightarrow> 'fs \<Rightarrow> bool \<Rightarrow> int \<Rightarrow> bool \<Rightarrow> (Pathkey \<times> byte) list
     \<Rightarrow> int \<times> 'fs \<times> int" where
  "wt_io ops sha s incremental ofs0 sync vmo =
     (let truncate = (\<not> incremental \<and> 0 = ofs0);
          w0 = \<lparr>wbuf = [], whsh = [], chi = 0x31, wcnt = 0, wofs = ofs0\<rparr>
      in case wt_chunks ops sha s w0 vmo (if incremental then 0x41 else 0x53) of
           (Some n, s2, w2) \<Rightarrow> (n, s2, wofs w2)
         | (None, s2, w2) \<Rightarrow>
             if wofs w2 = ofs0 then (0, s2, wofs w2)
             else
               (case wt_sync ops sync s2 of
                  (errc, s3) \<Rightarrow>
                    if 0 \<noteq> errc \<and> - ENOSYS \<noteq> errc then (errc, s3, wofs w2)
                    else if truncate then
                      (case fs_Truncate ops s3 (wofs w2) of
                         (errc1, s4) \<Rightarrow>
                           if 0 \<noteq> errc1 then (errc1, s4, wofs w2)
                           else
                             (case wt_sync ops sync s4 of
                                (errc2, s5) \<Rightarrow>
                                  if 0 \<noteq> errc2 \<and> - ENOSYS \<noteq> errc2
                                  then (errc2, s5, wofs w2)
                                  else (1, s5, wofs w2)))
                    else (1, s3, wofs w2)))"

text \<open>
  The loop of \<^verbatim>\<open>writeTransaction\<close> is \<^verbatim>\<open>for k, v := range vm\<close> over the map to be
  written. Go leaves the order in which a range visits a map unspecified, and two loops
  over the same map need not agree. The order is a parameter here, a ranking of the keys:
  the loop visits the entries by increasing rank (entries of equal rank in the order of
  the list that stands for the map). Every order of a map is the order of some ranking
  (lemma \<open>range_order_any\<close> below).
\<close>

definition range_order :: "(Pathkey \<Rightarrow> nat) \<Rightarrow> (Pathkey \<times> byte) list \<Rightarrow> (Pathkey \<times> byte) list" where
  "range_order rank m = sort_key (\<lambda>kv. rank (fst kv)) m"

text \<open>The ranking that gives a list of keys its own order: the position of a key in it.\<close>

fun position :: "'a list \<Rightarrow> 'a \<Rightarrow> nat" where
  "position [] k = 0"
| "position (x # xs) k = (if x = k then 0 else Suc (position xs k))"

text \<open>
  \<^verbatim>\<open>writeTransaction\<close> on the storage state \<open>s\<close> of \<open>pm.fs\<close>, its loop visiting the map in
  the order of \<open>rank\<close>; the state the storage is left in is returned beside the path map,
  which holds it too.
\<close>

definition writeTransaction ::
  "'fs fsops \<Rightarrow> (byte list \<Rightarrow> byte list) \<Rightarrow> 'fs Pathmap \<Rightarrow> 'fs \<Rightarrow> bool \<Rightarrow> int \<Rightarrow> bool
     \<Rightarrow> (Pathkey \<Rightarrow> nat) \<Rightarrow> int \<times> 'fs Pathmap \<times> 'fs" where
  "writeTransaction ops sha pm s incremental ofs0 sync rank =
     (case writeBegin pm incremental of
        (vmo, pm1) \<Rightarrow>
          (case wt_io ops sha s incremental ofs0 sync (range_order rank vmo) of
             (n, s1, ofs1) \<Rightarrow> (n, writeEnd (pm1\<lparr>fs := Some s1\<rparr>) n ofs1 vmo, s1)))"

text \<open>
  \<^verbatim>\<open>Write\<close>. Go's integer division truncates; the offset is never negative, where
  truncation and \<open>div\<close> agree. The loop of its first transaction ranges in the order of
  \<open>ro 0\<close>, the loop of its second one in the order of \<open>ro 1\<close>.
\<close>

definition Write ::
  "'fs fsops \<Rightarrow> (byte list \<Rightarrow> byte list) \<Rightarrow> 'fs Pathmap \<Rightarrow> bool \<Rightarrow> (nat \<Rightarrow> Pathkey \<Rightarrow> nat)
     \<Rightarrow> int \<times> 'fs Pathmap" where
  "Write ops sha pm sync ro =
     (case fs pm of
        None \<Rightarrow> (- EPERM, pm)
      | Some s \<Rightarrow>
          let ofs0 = ofs pm;
              cnt = ofs0 div 16;
              full = (1024 < cnt \<and> 2 * int (length (vm pm)) < cnt)
          in
            if full then
              (case writeTransaction ops sha pm s False ofs0 sync (ro 0) of
                 (n, pm1, s1) \<Rightarrow>
                   if 0 > n then (n, pm1)
                   else
                     (case writeTransaction ops sha pm1 s1 False 0 sync (ro 1) of
                        (n2, pm2, s2) \<Rightarrow> (n2, pm2)))
            else
              (case writeTransaction ops sha pm s True ofs0 sync (ro 0) of
                 (n, pm1, s1) \<Rightarrow> (n, pm1)))"

section \<open>Purge\<close>

definition purge_step :: "Pathkey \<times> byte \<Rightarrow> (Pathkey \<times> byte) list \<Rightarrow> (Pathkey \<times> byte) list" where
  "purge_step kv m =
     (case kv of
        (k, v) \<Rightarrow>
          if 0 \<noteq> v AND DIRT then m
          else if v = WHITEOUT \<or> v = OPAQUE then m
          else AList.delete k m)"

definition Purge :: "'fs Pathmap \<Rightarrow> 'fs Pathmap" where
  "Purge pm = pm\<lparr>vm := fold purge_step (vm pm) (vm pm)\<rparr>"

section \<open>Notions used to state the properties\<close>

text \<open>A path is absolute when it begins with a slash.\<close>

definition absolute :: "string \<Rightarrow> bool" where
  "absolute path = (case path of [] \<Rightarrow> False | c # _ \<Rightarrow> c = CHR ''/'')"

text \<open>
  The ancestor prefixes of a path \<open>p\<close>, the path itself included: the root prefix is the
  whole run of slashes \<open>p\<close> begins with; every other one ends with the last character of
  a segment, that is, it does not end in a slash and is followed in \<open>p\<close> by a slash or by
  nothing.
\<close>

definition ancestor_prefix :: "string \<Rightarrow> string \<Rightarrow> bool" where
  "ancestor_prefix a p =
     (a \<noteq> [] \<and> take (length a) p = a \<and>
      (if list_all (\<lambda>c. c = CHR ''/'') a
       then length a = length p \<or> p ! length a \<noteq> CHR ''/''
       else last a \<noteq> CHR ''/'' \<and> (length a = length p \<or> p ! length a = CHR ''/'')))"

text \<open>The same boundary, by its position in the path.\<close>

definition boundary :: "string \<Rightarrow> nat \<Rightarrow> bool" where
  "boundary path n =
     (0 < n \<and> n \<le> length path \<and>
      (if list_all (\<lambda>c. c = CHR ''/'') (take n path)
       then n = length path \<or> path ! n \<noteq> CHR ''/''
       else path ! (n - 1) \<noteq> CHR ''/'' \<and> (n = length path \<or> path ! n = CHR ''/'')))"

text \<open>A sequence of \<^verbatim>\<open>Set\<close> calls; it stops at the first one that panics.\<close>

fun Sets ::
  "(byte list \<Rightarrow> byte list) \<Rightarrow> (char \<Rightarrow> char) \<Rightarrow> 'fs Pathmap \<Rightarrow> (string \<times> byte) list
     \<Rightarrow> error + 'fs Pathmap" where
  "Sets sha fc pm [] = Inr pm"
| "Sets sha fc pm ((path, v) # ops) =
     (case Set sha fc pm path v of Inl e \<Rightarrow> Inl e | Inr pm' \<Rightarrow> Sets sha fc pm' ops)"

text \<open>Every cell of a map has a kind other than \<open>UNKNOWN\<close>.\<close>

definition no_unknown :: "(Pathkey \<times> byte) list \<Rightarrow> bool" where
  "no_unknown m = list_all (\<lambda>(k, v). v AND MASK \<noteq> UNKNOWN) m"

text \<open>
  The main map after a transaction has been committed to it: some temp map applied to
  the old map (command A) or to the empty map (command S).
\<close>

definition committed :: "(Pathkey \<times> byte) list \<Rightarrow> (Pathkey \<times> byte) list \<Rightarrow> bool" where
  "committed m m' = (\<exists>t c. m' = fold apply_record t (if c then [] else m))"

text \<open>
  The states a path map can reach: it is opened (over any storage and any file
  contents, or in memory only) and then used through \<^verbatim>\<open>Set\<close>, \<^verbatim>\<open>SetIf\<close>, \<^verbatim>\<open>Write\<close> and
  \<^verbatim>\<open>Purge\<close>.
\<close>

inductive reachable ::
  "'fs fsops \<Rightarrow> (byte list \<Rightarrow> byte list) \<Rightarrow> (char \<Rightarrow> char) \<Rightarrow> 'fs Pathmap \<Rightarrow> bool"
  for ops :: "'fs fsops" and sha :: "byte list \<Rightarrow> byte list" and fc :: "char \<Rightarrow> char" where
  reach_Open: "OpenPathmap ops sha f caseins = (errc, Some pm) \<Longrightarrow> reachable ops sha fc pm"
| reach_Set: "reachable ops sha fc pm \<Longrightarrow> Set sha fc pm path v = Inr pm' \<Longrightarrow> reachable ops sha fc pm'"
| reach_SetIf: "reachable ops sha fc pm \<Longrightarrow> SetIf sha fc pm path v = Inr pm' \<Longrightarrow> reachable ops sha fc pm'"
| reach_Write: "reachable ops sha fc pm \<Longrightarrow> Write ops sha pm sync ro = (n, pm') \<Longrightarrow> reachable ops sha fc pm'"
| reach_Purge: "reachable ops sha fc pm \<Longrightarrow> reachable ops sha fc (Purge pm)"

section \<open>A storage in memory\<close>

text \<open>
  The ideal back end, for the properties that speak of what is on disk: a file is its
  bytes, every call succeeds and is recorded in \<open>events\<close>. A write beyond the end pads
  with zeros, as a truncation to a greater length does.
\<close>

datatype event = EvWrite int "byte list" | EvFsync | EvTruncate int

record memfs =
  content :: "byte list"
  events :: "event list"

definition pwrite :: "byte list \<Rightarrow> nat \<Rightarrow> byte list \<Rightarrow> byte list" where
  "pwrite f off b = take off (f @ replicate (off - length f) 0) @ b @ drop (off + length b) f"

definition mem_ops :: "memfs fsops" where
  "mem_ops =
     \<lparr>fs_Open = (\<lambda>s. (0, s)),
      fs_Create = (\<lambda>s. (0, s)),
      fs_Mknod = (\<lambda>s. (0, s)),
      fs_Reader = (\<lambda>s. \<lparr>rbytes = content s, rlast = 0\<rparr>),
      fs_Write = (\<lambda>s b off.
        (int (length b),
         s\<lparr>content := pwrite (content s) (nat off) b, events := events s @ [EvWrite off b]\<rparr>)),
      fs_Fsync = (\<lambda>s. (0, s\<lparr>events := events s @ [EvFsync]\<rparr>)),
      fs_Truncate = (\<lambda>s len.
        (0, s\<lparr>content := take (nat len) (content s @ replicate (nat len - length (content s)) 0),
              events := events s @ [EvTruncate len]\<rparr>))\<rparr>"

text \<open>
  A storage that cannot be written: every write fails with \<open>EIO\<close>. Its state plays no
  part.
\<close>

definition failing_ops :: "unit fsops" where
  "failing_ops =
     \<lparr>fs_Open = (\<lambda>s. (0, s)),
      fs_Create = (\<lambda>s. (0, s)),
      fs_Mknod = (\<lambda>s. (0, s)),
      fs_Reader = (\<lambda>s. \<lparr>rbytes = [], rlast = 0\<rparr>),
      fs_Write = (\<lambda>s b off. (- EIO, s)),
      fs_Fsync = (\<lambda>s. (0, s)),
      fs_Truncate = (\<lambda>s len. (0, s))\<rparr>"

definition empty_file :: memfs where
  "empty_file = \<lparr>content = [], events = []\<rparr>"

text \<open>
  Concrete inputs for running the model: a stand-in digest (the bytes themselves, which
  \<open>Sum256\<close> cuts or pads to 32) and an empty in-memory path map.
\<close>

definition idsum :: "byte list \<Rightarrow> byte list" where
  "idsum bs = bs"

definition pm_empty :: "unit Pathmap" where
  "pm_empty = new_pathmap False None"

text \<open>
  A log of one transaction: the header of a first chunk with command A, count 1 and the
  hash of the record under \<open>idsum\<close>, and one record that whites out a key.
\<close>

definition demo_record :: "byte list" where
  "demo_record = [0xfd, 1, 2, 3, 4, 5, 6, 7, 8, 9, 10, 11, 12, 13, 14, 15]"

definition demo_log :: "byte list" where
  "demo_log = [0x31, 0x41, 1, 0] @ take 12 demo_record @ demo_record"

text \<open>
  Path maps over the storage that cannot be written: a fresh one, one whose key for
  \<open>/p\<close> has just been whited out, and one whose log has grown to 1025 records while
  its map holds a single clean whiteout, so that \<^verbatim>\<open>Write\<close> finds the log bloated.
\<close>

definition pm_unwritable :: "unit Pathmap" where
  "pm_unwritable = new_pathmap False (Some ())"

definition key_p :: Pathkey where
  "key_p = ComputePathkey idsum id ''/p'' False"

definition pm_dirty_whiteout :: "unit Pathmap" where
  "pm_dirty_whiteout = \<lparr>Caseins = False, vm = [(key_p, DIRT OR WHITEOUT)], dl = [key_p],
     fs = Some (), ofs = 0\<rparr>"

definition pm_bloated :: "unit Pathmap" where
  "pm_bloated = \<lparr>Caseins = False, vm = [(key_p, WHITEOUT)], dl = [],
     fs = Some (), ofs = 16400\<rparr>"


section \<open>The image of a transaction on disk\<close>

text \<open>
  What follows describes the bytes a transaction is made of, to state what the writer
  puts on disk and what the reader makes of it: a record for an entry of the map to be
  written, the header of a chunk, and the chunks of a transaction with the first
  header character \<open>c\<close>, the hash state \<open>h\<close> so far, the command \<open>cmd\<close> of its last
  chunk and the records \<open>rs\<close> (up to 4095 in a chunk, all chunks but the last with
  command P).
\<close>

definition rec_of :: "Pathkey \<times> byte \<Rightarrow> byte list" where
  "rec_of kv = (case kv of (k, v) \<Rightarrow> (DIRT OR v) # drop 1 k)"

definition chunk_hdr ::
  "(byte list \<Rightarrow> byte list) \<Rightarrow> byte \<Rightarrow> byte \<Rightarrow> int \<Rightarrow> byte list \<Rightarrow> byte list" where
  "chunk_hdr sha c cmd n h = [c, cmd] @ PutUint16 n @ take 12 (Sum256 sha h)"

function chunk_images ::
  "(byte list \<Rightarrow> byte list) \<Rightarrow> byte \<Rightarrow> byte list \<Rightarrow> byte \<Rightarrow> byte list list \<Rightarrow> byte list list" where
  "chunk_images sha c h cmd rs =
     (if length rs \<le> 4095
      then [chunk_hdr sha c cmd (int (length rs)) (h @ concat rs) @ concat rs]
      else (chunk_hdr sha c 0x50 4095 (h @ concat (take 4095 rs)) @ concat (take 4095 rs))
           # chunk_images sha 0x30 (h @ concat (take 4095 rs)) cmd (drop 4095 rs))"
  by pat_completeness auto

termination
  by (relation "measure (\<lambda>(sha, c, h, cmd, rs). length rs)") auto

declare chunk_images.simps [simp del]

fun write_events :: "int \<Rightarrow> byte list list \<Rightarrow> event list" where
  "write_events off [] = []"
| "write_events off (img # imgs) = EvWrite off img # write_events (off + int (length img)) imgs"

definition records16 :: "byte list list \<Rightarrow> bool" where
  "records16 rs = list_all (\<lambda>r. length r = 16) rs"

definition keys16 :: "(Pathkey \<times> byte) list \<Rightarrow> bool" where
  "keys16 m = list_all (\<lambda>(k, v). length k = 16) m"

fun chunks_written :: "event list \<Rightarrow> byte list list" where
  "chunks_written [] = []"
| "chunks_written (EvWrite off b # es) = b # chunks_written es"
| "chunks_written (e # es) = chunks_written es"

definition sync_events :: "bool \<Rightarrow> event list" where
  "sync_events sync = (if sync then [EvFsync] else [])"

text \<open>
  Concrete inputs: paths \<open>/xy\<close> numbered by the two characters \<open>x\<close> and \<open>y\<close>, their keys
  under the stand-in digest, and a to-be-written map that whites out the first \<open>n\<close>.
\<close>

definition demo_path :: "nat \<Rightarrow> string" where
  "demo_path i = [CHR ''/'', char_of (i mod 256), char_of (i div 256)]"

definition demo_key :: "nat \<Rightarrow> Pathkey" where
  "demo_key i = ComputePathkey idsum id (demo_path i) False"


definition durables :: "(Pathkey \<times> byte) list \<Rightarrow> (Pathkey \<times> byte) list" where
  "durables m = filter (\<lambda>kv. durable (snd kv)) m"

definition masked :: "(Pathkey \<times> byte) list \<Rightarrow> (Pathkey \<times> byte) list" where
  "masked m = map (\<lambda>kv. (fst kv, snd kv AND MASK)) m"

definition bloated :: "'fs Pathmap \<Rightarrow> bool" where
  "bloated pm = (1024 < ofs pm div 16 \<and> 2 * int (length (vm pm)) < ofs pm div 16)"

definition demo_rkey :: Pathkey where
  "demo_rkey = 0 # tl demo_record"

definition demo_log_S :: "byte list" where
  "demo_log_S = [0x31, 0x53, 1, 0] @ take 12 demo_record @ demo_record"

definition bloated_file :: memfs where
  "bloated_file = \<lparr>content = demo_log @ replicate 16368 0, events = []\<rparr>"

definition pm_bloated_mem :: "memfs Pathmap" where
  "pm_bloated_mem = \<lparr>Caseins = False, vm = [(demo_rkey, WHITEOUT)], dl = [],
     fs = Some bloated_file, ofs = 16400\<rparr>"

text \<open>
  A second bloated log, with a whiteout and an opaque directory, both clean; a pair of
  range orders of which the first visits the whiteout first and the second the opaque
  directory; and the image of a full one-chunk transaction under the stand-in digest.
\<close>

definition rec_w :: "byte list" where
  "rec_w = rec_of (demo_rkey, WHITEOUT)"

definition rec_o :: "byte list" where
  "rec_o = rec_of (key_p, OPAQUE)"

definition full_image :: "byte list list \<Rightarrow> byte list" where
  "full_image rs = chunk_hdr idsum 0x31 0x53 (int (length rs)) (concat rs) @ concat rs"

definition bloated_file_two :: memfs where
  "bloated_file_two =
     \<lparr>content = chunk_hdr idsum 0x31 0x41 2 (rec_w @ rec_o) @ rec_w @ rec_o @ replicate 16352 0,
      events = []\<rparr>"

definition pm_bloated_two :: "memfs Pathmap" where
  "pm_bloated_two = \<lparr>Caseins = False, vm = [(demo_rkey, WHITEOUT), (key_p, OPAQUE)], dl = [],
     fs = Some bloated_file_two, ofs = 16400\<rparr>"

definition demo_ro :: "nat \<Rightarrow> Pathkey \<Rightarrow> nat" where
  "demo_ro i k = (if (i = 0) = (k = demo_rkey) then 0 else 1)"

text \<open>
  The scenario of writing whiteouts and setting them back: on an empty file, every path
  of \<open>ps\<close> is whited out and the map is written; then every path \<open>p\<close> is set to the index
  value \<open>idx p\<close> and the map is written again. The result is the return value of the
  first \<^verbatim>\<open>Write\<close>, the path map before the second, and what the second returns; it is
  \<open>None\<close> if a \<^verbatim>\<open>Set\<close> panics. The two calls of \<^verbatim>\<open>Write\<close> range over their maps in the
  orders of \<open>ro1\<close> and \<open>ro2\<close>, and \<open>visit_order\<close> is the list of paths in the order in
  which a ranking visits their keys. \<open>whiteout_image\<close> is the one-chunk transaction A that
  holds a record of kind \<open>v\<close> for every path, and \<open>delete_or_insert\<close> the value
  \<^verbatim>\<open>writeBegin\<close> puts into the map to be written for a dirty key.
\<close>

definition delete_or_insert :: "byte \<Rightarrow> byte" where
  "delete_or_insert v = (if durable v then v else NOTEXIST)"

definition whiteout_image ::
  "(byte list \<Rightarrow> byte list) \<Rightarrow> (char \<Rightarrow> char) \<Rightarrow> bool \<Rightarrow> string list \<Rightarrow> byte \<Rightarrow> byte list" where
  "whiteout_image sha fc caseins ps v =
     (let rs = map (\<lambda>p. rec_of (ComputePathkey sha fc p caseins, v)) ps
      in chunk_hdr sha 0x31 0x41 (int (length ps)) (concat rs) @ concat rs)"

definition visit_order ::
  "(byte list \<Rightarrow> byte list) \<Rightarrow> (char \<Rightarrow> char) \<Rightarrow> bool \<Rightarrow> (Pathkey \<Rightarrow> nat) \<Rightarrow> string list
     \<Rightarrow> string list" where
  "visit_order sha fc caseins rank ps = sort_key (\<lambda>p. rank (ComputePathkey sha fc p caseins)) ps"

definition whiteouts_then_index ::
  "(byte list \<Rightarrow> byte list) \<Rightarrow> (char \<Rightarrow> char) \<Rightarrow> bool \<Rightarrow> string list \<Rightarrow> (string \<Rightarrow> byte) \<Rightarrow> bool
     \<Rightarrow> (nat \<Rightarrow> Pathkey \<Rightarrow> nat) \<Rightarrow> (nat \<Rightarrow> Pathkey \<Rightarrow> nat)
     \<Rightarrow> (int \<times> memfs Pathmap \<times> int \<times> memfs Pathmap) option" where
  "whiteouts_then_index sha fc caseins ps idx sync ro1 ro2 =
     (case Sets sha fc (new_pathmap caseins (Some empty_file)) (map (\<lambda>p. (p, WHITEOUT)) ps) of
        Inl e \<Rightarrow> None
      | Inr pm1 \<Rightarrow>
          (case Write mem_ops sha pm1 sync ro1 of
             (n1, pm2) \<Rightarrow>
               (case Sets sha fc pm2 (map (\<lambda>p. (p, idx p)) ps) of
                  Inl e \<Rightarrow> None
                | Inr pm3 \<Rightarrow> Some (n1, pm3, Write mem_ops sha pm3 sync ro2))))"

fun truncations :: "event list \<Rightarrow> int list" where
  "truncations [] = []"
| "truncations (EvTruncate len # es) = len # truncations es"
| "truncations (e # es) = truncations es"

text \<open>
  For the replay of an image: what a record read does to the temp map, the reader moved
  on by \<open>n\<close> bytes, and records whose first byte has the dirty bit, as the reader expects
  of a record that is not a header.
\<close>

definition upd_record :: "byte list \<Rightarrow> (Pathkey \<times> byte) list \<Rightarrow> (Pathkey \<times> byte) list" where
  "upd_record r t = AList.update (0 # tl r) (hd r AND MASK) t"

definition advance :: "reader \<Rightarrow> nat \<Rightarrow> reader" where
  "advance rdr n = rdr\<lparr>rbytes := drop n (rbytes rdr)\<rparr>"

definition framed :: "byte list list \<Rightarrow> bool" where
  "framed rs = list_all (\<lambda>r. hd r AND DIRT \<noteq> 0) rs"








text \<open>
  For the round trip through the file. \<open>set_inv\<close> is what holds of a path map that has
  only seen \<^verbatim>\<open>Set\<close> since it was opened on an empty file: the keys of the map and of the
  dirty list are not repeated, a key is on the dirty list exactly when its cell is dirty,
  a whiteout or an opaque directory is dirty, and the keys of the dirty list are 16 bytes
  that begin with 0. \<open>roundtrip\<close> opens a path map on the empty file, runs the \<^verbatim>\<open>Set\<close>
  calls \<open>ops\<close> and \<^verbatim>\<open>Write(true)\<close> (ranging in the orders \<open>ro\<close>), and opens a fresh path
  map on the file as it is then; its result is the return value of \<^verbatim>\<open>Write\<close>, the path
  map before \<^verbatim>\<open>Write\<close> and the reloaded one, or \<open>None\<close> if a call panics or fails.
  \<open>persisted m k\<close> is what a reload is to hold for the key \<open>k\<close>: the kind of its cell in \<open>m\<close>
  if that is \<open>WHITEOUT\<close> or \<open>OPAQUE\<close>, with the dirty bit clear, and nothing otherwise.
\<close>

definition set_inv :: "'fs Pathmap \<Rightarrow> bool" where
  "set_inv pm =
     (distinct (map fst (vm pm)) \<and> distinct (dl pm) \<and>
      (\<forall>k. k \<in> set (dl pm) \<longleftrightarrow> (\<exists>v. map_of (vm pm) k = Some v \<and> v AND DIRT \<noteq> 0)) \<and>
      (\<forall>k v. map_of (vm pm) k = Some v \<longrightarrow> durable v \<longrightarrow> v AND DIRT \<noteq> 0) \<and>
      (\<forall>k\<in>set (dl pm). length k = 16 \<and> hd k = 0))"

definition roundtrip ::
  "(byte list \<Rightarrow> byte list) \<Rightarrow> (char \<Rightarrow> char) \<Rightarrow> bool \<Rightarrow> (string \<times> byte) list
     \<Rightarrow> (nat \<Rightarrow> Pathkey \<Rightarrow> nat) \<Rightarrow> (int \<times> memfs Pathmap \<times> memfs Pathmap) option" where
  "roundtrip sha fc caseins ops ro =
     (case OpenPathmap mem_ops sha (Some empty_file) caseins of
        (e, None) \<Rightarrow> None
      | (e, Some pm0) \<Rightarrow>
          (case Sets sha fc pm0 ops of
             Inl err \<Rightarrow> None
           | Inr pm \<Rightarrow>
               (case Write mem_ops sha pm True ro of
                  (n, pm1) \<Rightarrow>
                    (case fs pm1 of
                       None \<Rightarrow> None
                     | Some s1 \<Rightarrow>
                         (case OpenPathmap mem_ops sha (Some s1) caseins of
                            (e2, None) \<Rightarrow> None
                          | (e2, Some pm2) \<Rightarrow> Some (n, pm, pm2))))))"

definition persisted :: "(Pathkey \<times> byte) list \<Rightarrow> Pathkey \<Rightarrow> byte option" where
  "persisted m k =
     (case map_of m k of
        None \<Rightarrow> None
      | Some v \<Rightarrow> if durable v then Some (v AND MASK) else None)"

definition demo_ops :: "(string \<times> byte) list" where
  "demo_ops = [(''/a'', WHITEOUT), (''/b'', OPAQUE), (''/c'', 3), (''/a'', 5), (''/d/e'', WHITEOUT),
               (''/f'', NOTEXIST), (''/b'', OPAQUE)]"

section \<open>Bytes: the dirty bit and the visibility value\<close>

lemma bit80: "bit (0x80::byte) n \<longleftrightarrow> n = 7"
proof -
  have "(0x80::byte) = 2 ^ 7" by simp
  then show ?thesis by (simp only: bit_exp_iff) (auto simp: possible_bit_word)
qed

lemma bit7f: "bit (0x7f::byte) n \<longleftrightarrow> n < 7"
proof -
  have "(0x7f::byte) = mask 7" by (simp add: mask_eq_exp_minus_1)
  then show ?thesis by (simp only: bit_mask_iff) (auto simp: possible_bit_word)
qed

lemma bit0b: "bit (0::byte) n \<longleftrightarrow> False"
  by simp

lemmas byte_bits = bit_and_iff bit_or_iff bit80 bit7f bit0b

lemma dirt_or_mask: "(DIRT OR v) AND MASK = v AND MASK"
  unfolding DIRT_def MASK_def by (rule bit_eqI) (simp only: byte_bits, auto)

lemma mask_and_dirt: "(v AND MASK) AND DIRT = 0"
  unfolding DIRT_def MASK_def by (rule bit_eqI) (simp only: byte_bits, auto)

lemma dirt_or_dirt: "(DIRT OR v) AND DIRT = DIRT"
  unfolding DIRT_def MASK_def by (rule bit_eqI) (simp only: byte_bits, auto)

lemma le_mask_id: "v \<le> MASK \<Longrightarrow> v AND MASK = v"
proof -
  assume "v \<le> MASK"
  then have "uint v < 2 ^ 7" by (simp add: word_le_def MASK_def)
  then have "v AND mask 7 = v" by (simp only: mask_eq_iff)
  then show ?thesis by (simp add: mask_eq_exp_minus_1 MASK_def)
qed

lemma le_mask_clean: "v \<le> MASK \<Longrightarrow> v AND DIRT = 0"
  using mask_and_dirt [of v] le_mask_id [of v] by simp

lemma and_dirt_cases: "v AND DIRT = 0 \<or> v AND DIRT = DIRT"
proof (cases "bit v 7")
  case True
  have "v AND 0x80 = 0x80" by (rule bit_eqI) (simp only: byte_bits, use True in auto)
  then show ?thesis by (simp add: DIRT_def)
next
  case False
  have "v AND 0x80 = 0" by (rule bit_eqI) (simp only: byte_bits, use False in auto)
  then show ?thesis by (simp add: DIRT_def)
qed

lemma mask_mask: "(v AND MASK) AND MASK = v AND MASK"
  by (simp add: and.assoc)

lemma maxvis_le_mask: "v \<le> MAXVIS \<Longrightarrow> v \<le> MASK"
proof -
  have "MAXVIS \<le> MASK" by (simp add: vis_defs)
  then show "v \<le> MAXVIS \<Longrightarrow> v \<le> MASK" by (rule order_trans [rotated])
qed

lemma pm_set_fields:
  "\<exists>d. (d = 0 \<or> d = DIRT) \<and> vm (pm_set pm k u v) = AList.update k (d OR v) (vm pm)"
  using and_dirt_cases [of u] by (auto simp: pm_set_def Let_def)

lemma lookup_update: "lookup (AList.update k v m) k = (v, True)"
  by (simp add: lookup_def update_conv')

lemma Set_TryGet:
  assumes "v \<le> MAXVIS"
  shows "\<exists>pm'. Set sha fc pm path v = Inr pm' \<and> TryGet sha fc pm' path = (v, True)
     \<and> Caseins pm' = Caseins pm"
proof -
  let ?k = "ComputePathkey sha fc path (Caseins pm)"
  obtain u0 ok where l: "lookup (vm pm) ?k = (u0, ok)" by (cases "lookup (vm pm) ?k")
  let ?pm' = "pm_set pm ?k (if \<not> ok then UNKNOWN else u0) v"
  have s: "Set sha fc pm path v = Inr ?pm'"
    using assms l by (simp add: Set_def Let_def)
  have c: "Caseins ?pm' = Caseins pm" by (simp add: pm_set_def Let_def)
  obtain d where d: "d = 0 \<or> d = DIRT"
    "vm ?pm' = AList.update ?k (d OR v) (vm pm)"
    using pm_set_fields by blast
  have "(d OR v) AND MASK = v"
    using d(1) le_mask_id [OF maxvis_le_mask [OF assms]] dirt_or_mask [of v] by auto
  then have "TryGet sha fc ?pm' path = (v, True)"
    by (simp add: TryGet_def c d(2) lookup_update)
  with s c show ?thesis by blast
qed

section \<open>Get, TryGet and Set\<close>

lemma Get_loop_stop:
  "scan (\<lambda>c. c = CHR ''/'') path j = j \<Longrightarrow> Get_loop sha fc pm path j h st = st"
  by (subst Get_loop.simps) (simp add: Let_def)

lemma scan_relative: "\<not> absolute path \<Longrightarrow> scan (\<lambda>c. c = CHR ''/'') path 0 = 0"
  by (subst scan.simps) (auto simp: absolute_def split: list.splits)

lemma Get_relative: "\<not> absolute path \<Longrightarrow> Get sha fc pm path = (False, UNKNOWN)"
  by (simp add: Get_def Get_loop_stop scan_relative)

lemma scan_all: "j \<le> m \<Longrightarrow> m < scan P path j \<Longrightarrow> P (path ! m)"
proof (induction P path j rule: scan.induct)
  case (1 P path i)
  show ?case
  proof (cases "i < length path \<and> P (path ! i)")
    case True
    then have e: "scan P path i = scan P path (Suc i)" by (subst scan.simps) simp
    show ?thesis
    proof (cases "m = i")
      case True
      with \<open>i < length path \<and> P (path ! i)\<close> show ?thesis by simp
    next
      case False
      with 1(2) have "Suc i \<le> m" by simp
      moreover from 1(3) e have "m < scan P path (Suc i)" by simp
      ultimately show ?thesis using 1(1) True by simp
    qed
  next
    case False
    then have "scan P path i = i" by (subst scan.simps) auto
    with 1(2,3) show ?thesis by simp
  qed
qed

lemma scan_stop: "scan P path j < length path \<Longrightarrow> \<not> P (path ! scan P path j)"
proof (induction P path j rule: scan.induct)
  case (1 P path i)
  show ?case
  proof (cases "i < length path \<and> P (path ! i)")
    case True
    then have e: "scan P path i = scan P path (Suc i)" by (subst scan.simps) simp
    with 1 True show ?thesis by simp
  next
    case False
    then have e: "scan P path i = i" by (subst scan.simps) auto
    with 1(2) False show ?thesis by simp
  qed
qed

lemma get_lookup_mono: "fst st \<Longrightarrow> fst (get_lookup sha pm h st)"
  by (simp add: get_lookup_def split: prod.splits)

lemma Get_loop_mono: "fst st \<Longrightarrow> fst (Get_loop sha fc pm path j h st)"
proof (induction sha fc pm path j h st rule: Get_loop.induct)
  case (1 sha fc pm path j h st)
  show ?case
    apply (subst Get_loop.simps)
    apply (simp only: Let_def)
    using "1.IH" [OF refl _ refl refl refl _ refl refl] "1.prems"
    by (auto simp: get_lookup_mono)
qed

lemma hb_append:
  "bytes_of (fold_case fc c (a @ b)) = bytes_of (fold_case fc c a) @ bytes_of (fold_case fc c b)"
  by (simp add: bytes_of_def fold_case_def)

lemma take_slice: "j \<le> i \<Longrightarrow> take j path @ slice path j i = take i path"
  by (metis add_diff_cancel_left' le_Suc_ex slice_def take_add)

lemma pkh_Write_prefix:
  "j \<le> i \<Longrightarrow> h = bytes_of (fold_case fc c (take j path)) \<Longrightarrow>
     pkh_Write fc c h (slice path j i) = bytes_of (fold_case fc c (take i path))"
  by (simp add: pkh_Write_def hb_append [symmetric] take_slice)

lemma pkh_key:
  "pkh_ComputePathkey sha (bytes_of (fold_case fc (Caseins pm) a)) =
     ComputePathkey sha fc a (Caseins pm)"
  by (simp add: pkh_ComputePathkey_def ComputePathkey_def)

lemma get_lookup_opaque:
  "map_of (vm pm) (ComputePathkey sha fc a (Caseins pm)) = Some v \<Longrightarrow> v AND MASK = OPAQUE \<Longrightarrow>
     fst (get_lookup sha pm (bytes_of (fold_case fc (Caseins pm) a)) st)"
  by (simp add: get_lookup_def pkh_key lookup_def)

lemma scan_step: "j < length path \<Longrightarrow> P (path ! j) \<Longrightarrow> j < scan P path j"
proof -
  assume a: "j < length path" "P (path ! j)"
  then have "scan P path j = scan P path (Suc j)" by (subst scan.simps) simp
  moreover have "Suc j \<le> scan P path (Suc j)" by (rule scan_ge)
  ultimately show ?thesis by simp
qed

lemma Get_loop_unfold:
  assumes "i1 = scan (\<lambda>c. c = CHR ''/'') path j" "j \<noteq> i1"
    "i2 = scan (\<lambda>c. c \<noteq> CHR ''/'') path i1"
    "h1 = pkh_Write fc (Caseins pm) h (slice path j i1)"
    "st1 = (if j = 0 then get_lookup sha pm h1 st else st)"
  shows "Get_loop sha fc pm path j h st =
    (if i1 = i2 then st1
     else Get_loop sha fc pm path i2 (pkh_Write fc (Caseins pm) h1 (slice path i1 i2))
            (get_lookup sha pm (pkh_Write fc (Caseins pm) h1 (slice path i1 i2)) st1))"
  using assms by (subst Get_loop.simps) (simp add: Let_def)

lemma Get_loop_opaque:
  assumes "map_of (vm pm) (ComputePathkey sha fc (take n path) (Caseins pm)) = Some v"
    and "v AND MASK = OPAQUE"
    and "boundary path n"
    and "j < n"
    and "j < length path \<longrightarrow> path ! j = CHR ''/''"
    and "0 < j \<longrightarrow> path ! (j - 1) \<noteq> CHR ''/''"
    and "h = bytes_of (fold_case fc (Caseins pm) (take j path))"
  shows "fst (Get_loop sha fc pm path j h st)"
  using assms
proof (induction sha fc pm path j h st rule: Get_loop.induct)
  case (1 sha fc pm path j h st)
  define i1 where "i1 = scan (\<lambda>c. c = CHR ''/'') path j"
  define i2 where "i2 = scan (\<lambda>c. c \<noteq> CHR ''/'') path i1"
  define h1 where "h1 = pkh_Write fc (Caseins pm) h (slice path j i1)"
  define st1 where "st1 = (if j = 0 then get_lookup sha pm h1 st else st)"
  define h2 where "h2 = pkh_Write fc (Caseins pm) h1 (slice path i1 i2)"
  define st2 where "st2 = get_lookup sha pm h2 st1"
  note opq = get_lookup_opaque [OF "1.prems"(1,2)]
  from "1.prems"(3) have n: "0 < n" "n \<le> length path" by (simp_all add: boundary_def)
  with "1.prems"(4) have jlt: "j < length path" by simp
  with "1.prems"(5) have pj: "path ! j = CHR ''/''" by simp
  have ji1: "j < i1" unfolding i1_def using jlt pj by (intro scan_step) simp_all
  have i1le: "i1 \<le> length path" unfolding i1_def using jlt by (intro scan_le) simp
  have i2le: "i2 \<le> length path" unfolding i2_def using i1le by (intro scan_le)
  have i12: "i1 \<le> i2" unfolding i2_def by (rule scan_ge)
  have h1eq: "h1 = bytes_of (fold_case fc (Caseins pm) (take i1 path))"
    unfolding h1_def using ji1 "1.prems"(7) by (intro pkh_Write_prefix) simp_all
  have h2eq: "h2 = bytes_of (fold_case fc (Caseins pm) (take i2 path))"
    unfolding h2_def using i12 h1eq by (intro pkh_Write_prefix) simp_all
  have sl: "\<And>m. j \<le> m \<Longrightarrow> m < i1 \<Longrightarrow> path ! m = CHR ''/''"
    unfolding i1_def by (rule scan_all)
  have stop1: "i1 < length path \<Longrightarrow> path ! i1 \<noteq> CHR ''/''"
    unfolding i1_def by (rule scan_stop)
  have nsl: "\<And>m. i1 \<le> m \<Longrightarrow> m < i2 \<Longrightarrow> path ! m \<noteq> CHR ''/''"
    unfolding i2_def by (rule scan_all)
  have stop2: "i2 < length path \<Longrightarrow> path ! i2 = CHR ''/''"
    unfolding i2_def using scan_stop [of "\<lambda>c. c \<noteq> CHR ''/''" path i1] by simp
  have unf: "Get_loop sha fc pm path j h st =
      (if i1 = i2 then st1 else Get_loop sha fc pm path i2 h2 st2)"
    unfolding st2_def h2_def
    by (rule Get_loop_unfold [OF i1_def _ i2_def h1_def st1_def]) (use ji1 in simp)
  show ?case
  proof (cases "list_all (\<lambda>c. c = CHR ''/'') (take n path)")
    case True
    then have all: "\<And>m. m < n \<Longrightarrow> path ! m = CHR ''/''"
      using n by (simp add: list_all_length)
    have j0: "j = 0"
    proof (rule ccontr)
      assume "j \<noteq> 0"
      then have "path ! (j - 1) \<noteq> CHR ''/''" "j - 1 < n" using "1.prems"(4,6) by simp_all
      with all show False by blast
    qed
    from True "1.prems"(3) have nstop: "n = length path \<or> path ! n \<noteq> CHR ''/''"
      by (simp add: boundary_def)
    have "n = i1"
    proof (rule antisym)
      show "n \<le> i1"
      proof (rule ccontr)
        assume "\<not> n \<le> i1"
        then have "i1 < n" by simp
        with all stop1 n show False by fastforce
      qed
      show "i1 \<le> n"
      proof (rule ccontr)
        assume "\<not> i1 \<le> n"
        then have "n < i1" by simp
        with sl [of n] j0 i1le nstop show False by simp
      qed
    qed
    then have f1: "fst st1" unfolding st1_def using j0 h1eq opq by simp
    then have "fst st2" unfolding st2_def by (rule get_lookup_mono)
    with f1 show ?thesis unfolding unf by (simp add: Get_loop_mono)
  next
    case False
    with "1.prems"(3) have last: "path ! (n - 1) \<noteq> CHR ''/''"
      and nstop: "n = length path \<or> path ! n = CHR ''/''"
      by (simp_all add: boundary_def)
    have i1n: "i1 < n"
    proof (rule ccontr)
      assume "\<not> i1 < n"
      then have "n - 1 < i1" "j \<le> n - 1" using n "1.prems"(4) by simp_all
      with sl last show False by blast
    qed
    with n stop1 have "path ! i1 \<noteq> CHR ''/''" by simp
    then have i1i2: "i1 < i2" unfolding i2_def using i1n n by (intro scan_step) simp_all
    have i2n: "i2 \<le> n"
    proof (rule ccontr)
      assume "\<not> i2 \<le> n"
      then have "n < i2" by simp
      with nsl [of n] i1n i2le nstop show False by simp
    qed
    show ?thesis
    proof (cases "n = i2")
      case True
      then have "fst st2" unfolding st2_def using h2eq opq by simp
      then show ?thesis unfolding unf using i1i2 by (simp add: Get_loop_mono)
    next
      case neq: False
      have "fst (Get_loop sha fc pm path i2 h2 st2)"
      proof (rule "1.IH" [OF i1_def _ h1_def st1_def i2_def _ h2_def st2_def "1.prems"(1,2,3)])
        show "j \<noteq> i1" using ji1 by simp
        show "i1 \<noteq> i2" using i1i2 by simp
        show "i2 < n" using i2n neq by simp
        show "i2 < length path \<longrightarrow> path ! i2 = CHR ''/''" using stop2 by simp
        show "0 < i2 \<longrightarrow> path ! (i2 - 1) \<noteq> CHR ''/''" using nsl [of "i2 - 1"] i1i2 by simp
        show "h2 = bytes_of (fold_case fc (Caseins pm) (take i2 path))" by (rule h2eq)
      qed
      then show ?thesis unfolding unf using i1i2 by simp
    qed
  qed
qed


lemma ancestor_boundary:
  "ancestor_prefix a p \<Longrightarrow> boundary p (length a) \<and> take (length a) p = a"
proof -
  assume a: "ancestor_prefix a p"
  then have t: "take (length a) p = a" and ne: "a \<noteq> []" by (simp_all add: ancestor_prefix_def)
  have "length (take (length a) p) = length a" by (simp only: t)
  then have le: "length a \<le> length p" by simp
  have "last a = p ! (length a - 1)"
    by (metis t ne diff_less last_conv_nth length_greater_0_conv nth_take zero_less_one)
  with a t ne le show ?thesis
    by (auto simp: ancestor_prefix_def boundary_def split: if_splits)
qed

lemma Get_opaque_state:
  assumes "absolute p" "ancestor_prefix a p"
    and "map_of (vm pm) (ComputePathkey sha fc a (Caseins pm)) = Some v" "v AND MASK = OPAQUE"
  shows "fst (Get sha fc pm p)"
proof -
  from ancestor_boundary [OF assms(2)]
  have b: "boundary p (length a)" and t: "take (length a) p = a" by simp_all
  from assms(1) have p0: "0 < length p \<longrightarrow> p ! 0 = CHR ''/''"
    by (cases p) (simp_all add: absolute_def)
  from b have "0 < length a" by (simp add: boundary_def)
  have "fst (Get_loop sha fc pm p 0 NewPathkeyHash (False, 0, False))"
    by (rule Get_loop_opaque [where n = "length a" and v = v])
       (use assms(3,4) t b p0 \<open>0 < length a\<close> in
         \<open>simp_all add: NewPathkeyHash_def bytes_of_def fold_case_def\<close>)
  then show ?thesis
    by (auto simp: Get_def Let_def split: prod.splits)
qed

lemma pm_set_other:
  "k' \<noteq> k \<Longrightarrow> map_of (vm (pm_set pm k u v)) k' = map_of (vm pm) k'"
  by (simp add: pm_set_def Let_def update_conv')

lemma pm_set_Caseins: "Caseins (pm_set pm k u v) = Caseins pm"
  by (simp add: pm_set_def Let_def)

lemma Set_other:
  "Set sha fc pm q v = Inr pm' \<Longrightarrow> ComputePathkey sha fc q (Caseins pm) \<noteq> k \<Longrightarrow>
     map_of (vm pm') k = map_of (vm pm) k \<and> Caseins pm' = Caseins pm"
  by (auto simp: Set_def Let_def pm_set_other pm_set_Caseins split: if_splits prod.splits)

lemma Sets_other:
  "Sets sha fc pm ops = Inr pm' \<Longrightarrow>
   \<forall>(q, v) \<in> set ops. ComputePathkey sha fc q (Caseins pm) \<noteq> k \<Longrightarrow>
     map_of (vm pm') k = map_of (vm pm) k \<and> Caseins pm' = Caseins pm"
proof (induction ops arbitrary: pm)
  case Nil
  then show ?case by simp
next
  case (Cons x ops)
  obtain q v where x: "x = (q, v)" by (cases x)
  from Cons.prems(1) x obtain pm1 where
    s: "Set sha fc pm q v = Inr pm1" and r: "Sets sha fc pm1 ops = Inr pm'"
    by (auto split: sum.splits)
  from Cons.prems(2) x have "ComputePathkey sha fc q (Caseins pm) \<noteq> k" by simp
  from Set_other [OF s this] have
    o: "map_of (vm pm1) k = map_of (vm pm) k" "Caseins pm1 = Caseins pm" by simp_all
  from Cons.prems(2) o(2) have "\<forall>(q, v) \<in> set ops. ComputePathkey sha fc q (Caseins pm1) \<noteq> k"
    by simp
  from Cons.IH [OF r this] o show ?case by simp
qed

lemma Set_stores:
  "Set sha fc pm a v = Inr pm' \<Longrightarrow>
     \<exists>x. map_of (vm pm') (ComputePathkey sha fc a (Caseins pm)) = Some x \<and> x AND MASK = v
       \<and> Caseins pm' = Caseins pm"
proof -
  assume s: "Set sha fc pm a v = Inr pm'"
  then have v: "v \<le> MAXVIS" by (auto simp: Set_def split: if_splits)
  from Set_TryGet [OF v, of sha fc pm a] s
  have "TryGet sha fc pm' a = (v, True)" "Caseins pm' = Caseins pm" by auto
  then show ?thesis
    by (auto simp: TryGet_def lookup_def split: option.splits)
qed

section \<open>No cell of the map holds UNKNOWN\<close>

lemma no_unknown_Nil: "no_unknown []"
  by (simp add: no_unknown_def)

lemma no_unknown_update:
  "no_unknown m \<Longrightarrow> x AND MASK \<noteq> UNKNOWN \<Longrightarrow> no_unknown (AList.update k x m)"
  by (induction m) (auto simp: no_unknown_def)

lemma no_unknown_delete: "no_unknown m \<Longrightarrow> no_unknown (AList.delete k m)"
  by (induction m) (auto simp: no_unknown_def)

lemma no_unknown_lookup:
  "no_unknown m \<Longrightarrow> lookup m k = (v, ok) \<Longrightarrow> v AND MASK \<noteq> UNKNOWN"
proof (cases "map_of m k")
  case None
  assume "lookup m k = (v, ok)"
  with None have "v = 0" by (simp add: lookup_def)
  then show ?thesis by (simp add: vis_defs)
next
  case (Some x)
  assume n: "no_unknown m" and "lookup m k = (v, ok)"
  with Some have "v = x" by (simp add: lookup_def)
  moreover from Some have "(k, x) \<in> set m" by (rule map_of_SomeD)
  ultimately show ?thesis using n by (auto simp: no_unknown_def list_all_iff)
qed

lemma kind_stored:
  assumes "v \<le> MAXVIS" "d = 0 \<or> d = DIRT"
  shows "(d OR v) AND MASK = v" "v \<noteq> UNKNOWN"
proof -
  show "(d OR v) AND MASK = v"
    using assms(2) le_mask_id [OF maxvis_le_mask [OF assms(1)]] dirt_or_mask [of v] by auto
  show "v \<noteq> UNKNOWN"
    using assms(1) by (auto simp: vis_defs)
qed

lemma pm_set_no_unknown:
  assumes "no_unknown (vm pm)" "v \<le> MAXVIS"
  shows "no_unknown (vm (pm_set pm k u v))"
proof -
  obtain d where d: "d = 0 \<or> d = DIRT" "vm (pm_set pm k u v) = AList.update k (d OR v) (vm pm)"
    using pm_set_fields by blast
  from kind_stored [OF assms(2) d(1)] have "(d OR v) AND MASK \<noteq> UNKNOWN" by simp
  with assms(1) d(2) show ?thesis by (simp add: no_unknown_update)
qed

lemma Set_no_unknown:
  "Set sha fc pm path v = Inr pm' \<Longrightarrow> no_unknown (vm pm) \<Longrightarrow> no_unknown (vm pm')"
  by (auto simp: Set_def Let_def pm_set_no_unknown split: if_splits prod.splits)

lemma SetIf_no_unknown:
  "SetIf sha fc pm path v = Inr pm' \<Longrightarrow> no_unknown (vm pm) \<Longrightarrow> no_unknown (vm pm')"
  by (auto simp: SetIf_def Let_def pm_set_no_unknown split: if_splits prod.splits)

lemma Purge_fold_no_unknown: "no_unknown m \<Longrightarrow> no_unknown (fold purge_step xs m)"
  by (induction xs arbitrary: m) (auto simp: purge_step_def no_unknown_delete)

lemma Purge_no_unknown: "no_unknown (vm pm) \<Longrightarrow> no_unknown (vm (Purge pm))"
  by (simp add: Purge_def Purge_fold_no_unknown)

lemma masked_kind: "v AND MASK \<noteq> UNKNOWN \<Longrightarrow> (v AND MASK) AND MASK \<noteq> UNKNOWN"
  by (simp add: mask_mask)

lemma writeBegin_incr_fold:
  "no_unknown m \<Longrightarrow> no_unknown (snd (fold writeBegin_incr ks (vmo, m)))"
proof (induction ks arbitrary: vmo m)
  case Nil
  then show ?case by simp
next
  case (Cons k ks)
  obtain v ok where l: "lookup m k = (v, ok)" by (cases "lookup m k")
  from no_unknown_lookup [OF Cons.prems l] have "(v AND MASK) AND MASK \<noteq> UNKNOWN"
    by (rule masked_kind)
  with Cons.prems have "no_unknown (AList.update k (v AND MASK) m)"
    by (rule no_unknown_update)
  from Cons.IH [OF this] l show ?case by (simp add: writeBegin_incr_def)
qed

lemma writeBegin_full_fold:
  "no_unknown m \<Longrightarrow> no_unknown xs \<Longrightarrow> no_unknown (snd (fold writeBegin_full xs (vmo, m)))"
proof (induction xs arbitrary: vmo m)
  case Nil
  then show ?case by simp
next
  case (Cons x xs)
  obtain k v where x: "x = (k, v)" by (cases x)
  from Cons.prems(2) x have "v AND MASK \<noteq> UNKNOWN" "no_unknown xs"
    by (simp_all add: no_unknown_def)
  with Cons.prems(1) have "no_unknown (AList.update k (v AND MASK) m)"
    by (simp add: no_unknown_update masked_kind)
  from Cons.IH [OF this \<open>no_unknown xs\<close>] x show ?case by (simp add: writeBegin_full_def)
qed

lemma writeBegin_no_unknown:
  "writeBegin pm incremental = (vmo, pm1) \<Longrightarrow> no_unknown (vm pm) \<Longrightarrow> no_unknown (vm pm1)"
proof -
  assume w: "writeBegin pm incremental = (vmo, pm1)" and n: "no_unknown (vm pm)"
  show ?thesis
  proof (cases incremental)
    case True
    with w writeBegin_incr_fold [OF n, of "dl pm" "[]"] show ?thesis
      by (auto simp: writeBegin_def split: prod.splits)
  next
    case False
    with w writeBegin_full_fold [OF n n, of "[]"] show ?thesis
      by (auto simp: writeBegin_def split: prod.splits)
  qed
qed

lemma writeEnd_fold_no_unknown:
  "no_unknown (vm pm) \<Longrightarrow> no_unknown (vm (fold writeEnd_step vmo pm))"
proof (induction vmo arbitrary: pm)
  case Nil
  then show ?case by simp
next
  case (Cons x vmo)
  obtain k v where x: "x = (k, v)" by (cases x)
  obtain v1 ok where l: "lookup (vm pm) k = (v1, ok)" by (cases "lookup (vm pm) k")
  from no_unknown_lookup [OF Cons.prems l] have "(DIRT OR v1) AND MASK \<noteq> UNKNOWN"
    by (simp add: dirt_or_mask)
  with Cons.prems have "no_unknown (AList.update k (DIRT OR v1) (vm pm))"
    by (rule no_unknown_update)
  with Cons.prems x l have "no_unknown (vm (writeEnd_step x pm))"
    by (simp add: writeEnd_step_def)
  from Cons.IH [OF this] show ?case by simp
qed

lemma writeEnd_no_unknown:
  "no_unknown (vm pm) \<Longrightarrow> no_unknown (vm (writeEnd pm n ofs1 vmo))"
  by (simp add: writeEnd_def writeEnd_fold_no_unknown)

lemma writeTransaction_no_unknown:
  "writeTransaction ops sha pm s incremental ofs0 sync rank = (n, pm', s') \<Longrightarrow> no_unknown (vm pm) \<Longrightarrow>
     no_unknown (vm pm')"
  by (auto simp: writeTransaction_def split: prod.splits
      intro!: writeEnd_no_unknown dest: writeBegin_no_unknown)

lemma Write_no_unknown:
  "Write ops sha pm sync ro = (n, pm') \<Longrightarrow> no_unknown (vm pm) \<Longrightarrow> no_unknown (vm pm')"
  by (auto simp: Write_def Let_def split: option.splits if_splits prod.splits
      dest: writeTransaction_no_unknown)

lemma rt_chunks_vm:
  "rt_chunks sha pm st rdr = (n, pm', rdr') \<Longrightarrow>
     Caseins pm' = Caseins pm \<and> dl pm' = dl pm \<and> fs pm' = fs pm
     \<and> (vm pm' = vm pm \<or> (n = 1 \<and> equ st \<and> committed (vm pm) (vm pm')))"
proof (induction "length (rbytes rdr)" arbitrary: pm st rdr rule: less_induct)
  case less
  obtain n1 k0 rdr1 where r1: "pathmapRead rdr 1 = (n1, k0, rdr1)"
    by (cases "pathmapRead rdr 1")
  obtain n2 k1 rdr2 where r2: "pathmapRead rdr1 15 = (n2, k1, rdr2)"
    by (cases "pathmapRead rdr1 15")
  consider (eof) "0 \<ge> n1" | (unread) "0 < n1" "ch1 st" "0x31 = hd k0"
    | (short) "0 < n1" "\<not> (ch1 st \<and> 0x31 = hd k0)" "0 \<ge> n2"
    | (block) "0 < n1" "\<not> (ch1 st \<and> 0x31 = hd k0)" "0 < n2"
    by fastforce
  then show ?case
  proof cases
    case eof
    from less.prems rt_chunks_eof [OF r1 eof, of sha pm st] show ?thesis by simp
  next
    case unread
    from less.prems rt_chunks_unread [OF r1 unread, of sha pm] show ?thesis by simp
  next
    case short
    from less.prems rt_chunks_short [OF r1 short(1,2) r2 short(3), of sha pm]
    show ?thesis by simp
  next
    case block
    note rec = pathmapRead_record [OF r1 block(1) r2 block(3)]
    show ?thesis
    proof (cases "chunk_header_ok (ch1 st) (k0 @ k1)")
      case False
      note u = rt_chunks_trash [OF r1 block(1,2) r2 block(3) False, of sha pm]
      show ?thesis
      proof (cases "ch1 st")
        case True
        with less.prems u have "pm' = pm\<lparr>ofs := ofs pm + 16\<rparr>" by simp
        then show ?thesis by simp
      next
        case False
        with less.prems u have "rt_chunks sha (pm\<lparr>ofs := ofs pm + 16\<rparr>) st rdr2 = (n, pm', rdr')"
          by simp
        from less.hyps [OF _ this] rec show ?thesis by simp
      qed
    next
      case True
      obtain r idx pm2 st2 rdr3 where
        rr: "rt_records (pm\<lparr>ofs := ofs pm + 16\<rparr>) (st\<lparr>ch1 := True\<rparr>)
               (Uint16 (drop 2 (k0 @ k1))) 0 rdr2 = (r, idx, pm2, st2, rdr3)"
        by (cases "rt_records (pm\<lparr>ofs := ofs pm + 16\<rparr>) (st\<lparr>ch1 := True\<rparr>)
               (Uint16 (drop 2 (k0 @ k1))) 0 rdr2")
      from rt_records_inv [OF rr] have ri: "vm pm2 = vm pm" "Caseins pm2 = Caseins pm"
        "dl pm2 = dl pm" "fs pm2 = fs pm" "equ st2 = equ st" by simp_all
      note rl = rt_records_le [OF rr]
      note u = rt_chunks_chunk [OF r1 block(1,2) r2 block(3) True rr, of sha]
      show ?thesis
      proof (cases r)
        case (Some m)
        with less.prems u have "(n, pm', rdr') = (m, pm2, rdr3)" by simp
        with ri show ?thesis by simp
      next
        case None
        show ?thesis
        proof (cases "0x53 = (k0 @ k1) ! 1 \<or> 0x41 = (k0 @ k1) ! 1")
          case True
          with less.prems u None have
            "n = 1 \<and> (pm' = pm2 \<or> (equ st2 \<and> pm' = pm2\<lparr>vm := fold apply_record (tmp st2)
                (if 0x53 = (k0 @ k1) ! 1 then [] else vm pm2)\<rparr>))"
            by (simp add: Let_def split: if_splits)
          then consider "pm' = pm2" | "n = 1" "equ st2" "pm' = pm2\<lparr>vm := fold apply_record (tmp st2)
                (if 0x53 = (k0 @ k1) ! 1 then [] else vm pm2)\<rparr>" by blast
          then show ?thesis
          proof cases
            case 1
            with ri show ?thesis by simp
          next
            case 2
            have "committed (vm pm) (vm pm')"
              unfolding 2(3) committed_def using ri(1)
              by (intro exI [of _ "tmp st2"] exI [of _ "0x53 = (k0 @ k1) ! 1"]) simp
            with 2 ri show ?thesis by simp
          qed
        next
          case False
          define e where "e = (equ st2 \<and> (Uint16 (drop 2 (k0 @ k1)) = idx
                  \<and> take 12 (drop 4 (k0 @ k1)) = take 12 (Sum256 sha (hsh st2))))"
          from False less.prems u None have
            x: "rt_chunks sha pm2 (st2\<lparr>equ := e\<rparr>) rdr3 = (n, pm', rdr')"
            by (simp add: Let_def e_def)
          have lt: "length (rbytes rdr3) < length (rbytes rdr)" using rl rec(1) by simp
          from less.hyps [OF lt x] have
            h: "Caseins pm' = Caseins pm2" "dl pm' = dl pm2" "fs pm' = fs pm2"
              "vm pm' = vm pm2 \<or> (n = 1 \<and> e \<and> committed (vm pm2) (vm pm'))"
            by simp_all
          have "e \<Longrightarrow> equ st" using ri(5) by (simp add: e_def)
          with h ri show ?thesis by (simp only:) blast
        qed
      qed
    qed
  qed
qed

lemma apply_record_no_unknown: "no_unknown m \<Longrightarrow> no_unknown (apply_record kv m)"
proof -
  have "WHITEOUT AND MASK \<noteq> UNKNOWN" "OPAQUE AND MASK \<noteq> UNKNOWN" by (simp_all add: vis_defs)
  then show "no_unknown m \<Longrightarrow> no_unknown (apply_record kv m)"
    by (auto simp: apply_record_def no_unknown_update no_unknown_delete split: prod.splits)
qed

lemma fold_apply_record_no_unknown: "no_unknown m \<Longrightarrow> no_unknown (fold apply_record t m)"
  by (induction t arbitrary: m) (simp_all add: apply_record_no_unknown)

lemma rt_chunks_no_unknown:
  assumes "rt_chunks sha pm st rdr = (n, pm', rdr')" "no_unknown (vm pm)"
  shows "no_unknown (vm pm')"
proof -
  from rt_chunks_vm [OF assms(1)] consider "vm pm' = vm pm"
    | t c where "vm pm' = fold apply_record t (if c then [] else vm pm)"
    unfolding committed_def by blast
  then show ?thesis
  proof cases
    case 1
    with assms(2) show ?thesis by simp
  next
    case 2
    have "no_unknown (if c then [] else vm pm)" using assms(2) by (simp add: no_unknown_Nil)
    with 2 show ?thesis by (simp add: fold_apply_record_no_unknown)
  qed
qed

lemma read_no_unknown:
  "read sha pm rdr = (n, pm') \<Longrightarrow> no_unknown (vm pm) \<Longrightarrow> no_unknown (vm pm')"
proof (induction sha pm rdr rule: read.induct)
  case (1 sha pm rdr)
  obtain m pm1 rdr1 where t: "readTransaction sha pm rdr = (m, pm1, rdr1)"
    by (cases "readTransaction sha pm rdr")
  then have n1: "no_unknown (vm pm1)"
    using rt_chunks_no_unknown "1.prems"(2) by (simp add: readTransaction_def)
  show ?case
  proof (cases "0 > m \<or> 0 = m")
    case True
    with "1.prems"(1) t have "pm' = pm1" by (subst (asm) read.simps) auto
    with n1 show ?thesis by simp
  next
    case False
    with "1.prems"(1) t have "read sha pm1 rdr1 = (n, pm')" by (subst (asm) read.simps) auto
    from "1.IH" [OF t [symmetric] refl _ _ this n1] False show ?thesis by simp
  qed
qed

lemma OpenPathmap_cases:
  assumes "OpenPathmap ops sha f caseins = (errc, Some pm)"
  shows "pm = new_pathmap caseins None
    \<or> (\<exists>s n. read sha (new_pathmap caseins (Some s)) (fs_Reader ops s) = (n, pm) \<and> \<not> 0 > n)"
proof (cases f)
  case None
  with assms show ?thesis by (simp add: OpenPathmap_def)
next
  case (Some s)
  obtain e1 s1 where o: "fs_Open ops s = (e1, s1)" by (cases "fs_Open ops s")
  obtain e3 s4 where c: "(if 0 \<noteq> e1 then
                        (case fs_Create ops s1 of
                           (errc1, s2) \<Rightarrow>
                             if - ENOSYS = errc1 then
                               (case fs_Mknod ops s2 of
                                  (errc2, s3) \<Rightarrow>
                                    if 0 = errc2 then fs_Open ops s3 else (errc2, s3))
                             else (errc1, s2))
                      else (e1, s1)) = (e3, s4)"
    by (rule prod.exhaust)
  obtain n pm1 where r: "read sha (new_pathmap caseins (Some s4)) (fs_Reader ops s4) = (n, pm1)"
    by (rule prod.exhaust)
  from assms Some o c r have "0 = e3 \<and> \<not> 0 > n \<and> pm = pm1"
    unfolding OpenPathmap_def by (simp split: if_splits)
  with r show ?thesis by blast
qed

lemma OpenPathmap_no_unknown:
  assumes "OpenPathmap ops sha f caseins = (errc, Some pm)"
  shows "no_unknown (vm pm)"
proof -
  have e: "no_unknown (vm (new_pathmap caseins x))" for x :: "'a option"
    by (simp add: new_pathmap_def no_unknown_Nil)
  from OpenPathmap_cases [OF assms] show ?thesis
    using e read_no_unknown by blast
qed

lemma reachable_no_unknown: "reachable ops sha fc pm \<Longrightarrow> no_unknown (vm pm)"
proof (induction rule: reachable.induct)
  case (reach_Open f caseins errc pm)
  then show ?case by (rule OpenPathmap_no_unknown)
next
  case (reach_Set pm path v pm')
  then show ?case by (auto dest: Set_no_unknown)
next
  case (reach_SetIf pm path v pm')
  then show ?case by (auto dest: SetIf_no_unknown)
next
  case (reach_Write pm sync ro n pm')
  then show ?case by (auto dest: Write_no_unknown)
next
  case (reach_Purge pm)
  then show ?case by (simp add: Purge_no_unknown)
qed



section \<open>Writing: what writeBegin emits and what writeEnd restores\<close>

lemma lookup_Some: "map_of m k = Some v \<Longrightarrow> lookup m k = (v, True)"
  by (simp add: lookup_def)

lemma writeEnd_step_keeps:
  assumes "map_of (vm pm) k = Some x" "x AND DIRT \<noteq> 0" "k \<in> set (dl pm)"
  shows "\<exists>x'. map_of (vm (writeEnd_step kv pm)) k = Some x' \<and> x' AND DIRT \<noteq> 0"
    and "k \<in> set (dl (writeEnd_step kv pm))"
proof -
  obtain k1 v1 where kv: "kv = (k1, v1)" by (cases kv)
  obtain y ok where l: "lookup (vm pm) k1 = (y, ok)" by (cases "lookup (vm pm) k1")
  show "\<exists>x'. map_of (vm (writeEnd_step kv pm)) k = Some x' \<and> x' AND DIRT \<noteq> 0"
  proof (cases "k1 = k")
    case True
    with assms(1) l have "y = x" by (simp add: lookup_def)
    with assms kv l True show ?thesis by (simp add: writeEnd_step_def)
  next
    case False
    with assms kv l show ?thesis by (simp add: writeEnd_step_def update_conv')
  qed
  from assms(3) kv l show "k \<in> set (dl (writeEnd_step kv pm))"
    by (simp add: writeEnd_step_def)
qed

lemma writeEnd_fold_keeps:
  "map_of (vm pm) k = Some x \<Longrightarrow> x AND DIRT \<noteq> 0 \<Longrightarrow> k \<in> set (dl pm) \<Longrightarrow>
     (\<exists>x'. map_of (vm (fold writeEnd_step vmo pm)) k = Some x' \<and> x' AND DIRT \<noteq> 0)
     \<and> k \<in> set (dl (fold writeEnd_step vmo pm))"
proof (induction vmo arbitrary: pm x)
  case Nil
  then show ?case by simp
next
  case (Cons kv vmo)
  from writeEnd_step_keeps [OF Cons.prems, of kv] obtain x' where
    "map_of (vm (writeEnd_step kv pm)) k = Some x'" "x' AND DIRT \<noteq> 0"
    "k \<in> set (dl (writeEnd_step kv pm))" by blast
  from Cons.IH [OF this] show ?case by simp
qed

text \<open>The first entry of the written map for a key decides; the key's cell is clean then.\<close>

lemma writeEnd_fold_redirties:
  "map_of vmo k = Some v \<Longrightarrow> v AND DIRT \<noteq> 0 \<Longrightarrow> map_of (vm pm) k = Some x \<Longrightarrow> x AND DIRT = 0 \<Longrightarrow>
     (\<exists>x'. map_of (vm (fold writeEnd_step vmo pm)) k = Some x' \<and> x' AND DIRT \<noteq> 0)
     \<and> k \<in> set (dl (fold writeEnd_step vmo pm))"
proof (induction vmo arbitrary: pm)
  case Nil
  then show ?case by simp
next
  case (Cons kv vmo)
  obtain k1 v1 where kv: "kv = (k1, v1)" by (cases kv)
  show ?case
  proof (cases "k1 = k")
    case True
    with Cons.prems(1) kv have v1: "v1 = v" by simp
    have d: "(DIRT OR x) AND DIRT \<noteq> 0" by (simp add: dirt_or_dirt DIRT_def)
    from Cons.prems(2,3,4) kv True v1 have
      "map_of (vm (writeEnd_step kv pm)) k = Some (DIRT OR x)" "k \<in> set (dl (writeEnd_step kv pm))"
      by (simp_all add: writeEnd_step_def lookup_Some update_conv')
    from writeEnd_fold_keeps [OF this(1) d this(2)] show ?thesis by simp
  next
    case False
    with Cons.prems(1) kv have m: "map_of vmo k = Some v" by simp
    obtain y ok where l: "lookup (vm pm) k1 = (y, ok)" by (cases "lookup (vm pm) k1")
    from Cons.prems(3) kv False l have "map_of (vm (writeEnd_step kv pm)) k = Some x"
      by (simp add: writeEnd_step_def update_conv')
    from Cons.IH [OF m Cons.prems(2) this Cons.prems(4)] show ?thesis by simp
  qed
qed

text \<open>After \<open>writeBegin\<close> every key of the written map is in the map, clean.\<close>

lemma writeBegin_incr_clean:
  "map_of (fst (fold writeBegin_incr ks (vmo, m))) k = Some v \<Longrightarrow>
   (map_of vmo k \<noteq> None \<longrightarrow> (\<exists>x. map_of m k = Some x \<and> x AND DIRT = 0)) \<Longrightarrow>
     \<exists>x. map_of (snd (fold writeBegin_incr ks (vmo, m))) k = Some x \<and> x AND DIRT = 0"
proof (induction ks arbitrary: vmo m)
  case Nil
  then show ?case by auto
next
  case (Cons k1 ks)
  obtain y ok where l: "lookup m k1 = (y, ok)" by (cases "lookup m k1")
  let ?vmo = "AList.update k1 (if durable y then y else NOTEXIST) vmo"
  let ?m = "AList.update k1 (y AND MASK) m"
  have s: "fold writeBegin_incr (k1 # ks) (vmo, m) = fold writeBegin_incr ks (?vmo, ?m)"
    using l by (simp add: writeBegin_incr_def)
  have "map_of ?vmo k \<noteq> None \<longrightarrow> (\<exists>x. map_of ?m k = Some x \<and> x AND DIRT = 0)"
    using Cons.prems(2) by (auto simp: update_conv' mask_and_dirt)
  from Cons.IH [OF _ this] Cons.prems(1) s show ?case by simp
qed

lemma writeBegin_full_clean:
  "map_of (fst (fold writeBegin_full xs (vmo, m))) k = Some v \<Longrightarrow>
   (map_of vmo k \<noteq> None \<longrightarrow> (\<exists>x. map_of m k = Some x \<and> x AND DIRT = 0)) \<Longrightarrow>
     \<exists>x. map_of (snd (fold writeBegin_full xs (vmo, m))) k = Some x \<and> x AND DIRT = 0"
proof (induction xs arbitrary: vmo m)
  case Nil
  then show ?case by auto
next
  case (Cons kv xs)
  obtain k1 y where kv: "kv = (k1, y)" by (cases kv)
  let ?vmo = "if durable y then AList.update k1 y vmo else vmo"
  let ?m = "AList.update k1 (y AND MASK) m"
  have s: "fold writeBegin_full (kv # xs) (vmo, m) = fold writeBegin_full xs (?vmo, ?m)"
    using kv by (simp add: writeBegin_full_def)
  have "map_of ?vmo k \<noteq> None \<longrightarrow> (\<exists>x. map_of ?m k = Some x \<and> x AND DIRT = 0)"
    using Cons.prems(2) by (auto simp: update_conv' mask_and_dirt)
  from Cons.IH [OF _ this] Cons.prems(1) s show ?case by simp
qed

lemma writeBegin_clean:
  assumes "writeBegin pm incremental = (vmo, pm1)" "map_of vmo k = Some v"
  shows "\<exists>x. map_of (vm pm1) k = Some x \<and> x AND DIRT = 0"
proof (cases incremental)
  case True
  with assms writeBegin_incr_clean [of "dl pm" "[]" "vm pm" k v] show ?thesis
    by (auto simp: writeBegin_def split: prod.splits)
next
  case False
  with assms writeBegin_full_clean [of "vm pm" "[]" "vm pm" k v] show ?thesis
    by (auto simp: writeBegin_def split: prod.splits)
qed

lemma writeBegin_dl: "writeBegin pm incremental = (vmo, pm1) \<Longrightarrow> dl pm1 = []"
  by (auto simp: writeBegin_def split: prod.splits)

text \<open>A dirty durable key on a duplicate-free dirty list is written with its dirty bit.\<close>

lemma writeBegin_incr_other:
  "k \<notin> set ks \<Longrightarrow> map_of (fst (fold writeBegin_incr ks (vmo, m))) k = map_of vmo k"
proof (induction ks arbitrary: vmo m)
  case Nil
  then show ?case by simp
next
  case (Cons k1 ks)
  obtain y ok where l: "lookup m k1 = (y, ok)" by (cases "lookup m k1")
  from Cons.prems have "k1 \<noteq> k" "k \<notin> set ks" by auto
  with Cons.IH [OF this(2)] l show ?case by (simp add: writeBegin_incr_def update_conv')
qed

lemma writeBegin_incr_other_m:
  "k \<notin> set ks \<Longrightarrow> map_of (snd (fold writeBegin_incr ks (vmo, m))) k = map_of m k"
proof (induction ks arbitrary: vmo m)
  case Nil
  then show ?case by simp
next
  case (Cons k1 ks)
  obtain y ok where l: "lookup m k1 = (y, ok)" by (cases "lookup m k1")
  from Cons.prems have "k1 \<noteq> k" "k \<notin> set ks" by auto
  with Cons.IH [OF this(2)] l show ?case by (simp add: writeBegin_incr_def update_conv')
qed

lemma writeBegin_incr_written:
  "distinct ks \<Longrightarrow> k \<in> set ks \<Longrightarrow> map_of m k = Some v \<Longrightarrow>
     map_of (fst (fold writeBegin_incr ks (vmo, m))) k = Some (if durable v then v else NOTEXIST)
     \<and> map_of (snd (fold writeBegin_incr ks (vmo, m))) k = Some (v AND MASK)"
proof (induction ks arbitrary: vmo m)
  case Nil
  then show ?case by simp
next
  case (Cons k1 ks)
  obtain y ok where l: "lookup m k1 = (y, ok)" by (cases "lookup m k1")
  let ?vmo = "AList.update k1 (if durable y then y else NOTEXIST) vmo"
  let ?m = "AList.update k1 (y AND MASK) m"
  have s: "fold writeBegin_incr (k1 # ks) (vmo, m) = fold writeBegin_incr ks (?vmo, ?m)"
    using l by (simp add: writeBegin_incr_def)
  show ?case
  proof (cases "k1 = k")
    case True
    with Cons.prems(3) l have y: "y = v" by (simp add: lookup_def)
    from Cons.prems(1) True have "k \<notin> set ks" by simp
    from writeBegin_incr_other [OF this, of ?vmo ?m] writeBegin_incr_other_m [OF this, of ?vmo ?m]
    show ?thesis unfolding s using True y by (simp add: update_conv')
  next
    case False
    with Cons.prems have "distinct ks" "k \<in> set ks" "map_of ?m k = Some v"
      by (simp_all add: update_conv')
    from Cons.IH [OF this] show ?thesis unfolding s .
  qed
qed

lemma writeBegin_full_other:
  "k \<notin> fst ` set xs \<Longrightarrow> map_of (fst (fold writeBegin_full xs (vmo, m))) k = map_of vmo k"
proof (induction xs arbitrary: vmo m)
  case Nil
  then show ?case by simp
next
  case (Cons kv xs)
  obtain k1 y where kv: "kv = (k1, y)" by (cases kv)
  from Cons.prems kv have "k1 \<noteq> k" "k \<notin> fst ` set xs" by auto
  with Cons.IH [OF this(2)] kv show ?case by (simp add: writeBegin_full_def update_conv')
qed

lemma writeBegin_full_written:
  "distinct (map fst xs) \<Longrightarrow> map_of xs k = Some v \<Longrightarrow> durable v \<Longrightarrow>
     map_of (fst (fold writeBegin_full xs (vmo, m))) k = Some v"
proof (induction xs arbitrary: vmo m)
  case Nil
  then show ?case by simp
next
  case (Cons kv xs)
  obtain k1 y where kv: "kv = (k1, y)" by (cases kv)
  let ?vmo = "if durable y then AList.update k1 y vmo else vmo"
  let ?m = "AList.update k1 (y AND MASK) m"
  have s: "fold writeBegin_full (kv # xs) (vmo, m) = fold writeBegin_full xs (?vmo, ?m)"
    using kv by (simp add: writeBegin_full_def)
  show ?case
  proof (cases "k1 = k")
    case True
    with Cons.prems(2) kv have y: "y = v" by simp
    from Cons.prems(1) kv True have "k \<notin> fst ` set xs" by simp
    from writeBegin_full_other [OF this, of ?vmo ?m] show ?thesis
      unfolding s using True y Cons.prems(3) by (simp add: update_conv')
  next
    case False
    with Cons.prems kv have "distinct (map fst xs)" "map_of xs k = Some v" by simp_all
    from Cons.IH [OF this Cons.prems(3)] show ?thesis unfolding s .
  qed
qed

lemma writeBegin_written:
  assumes "map_of (vm pm) k = Some v" "durable v"
    and "if incremental then distinct (dl pm) \<and> k \<in> set (dl pm) else distinct (map fst (vm pm))"
  shows "map_of (fst (writeBegin pm incremental)) k = Some v"
proof (cases incremental)
  case True
  with assms(3) have "distinct (dl pm)" "k \<in> set (dl pm)" by simp_all
  from writeBegin_incr_written [OF this assms(1), of "[]"] assms(2) True show ?thesis
    by (auto simp: writeBegin_def split: prod.splits)
next
  case False
  with assms(3) have "distinct (map fst (vm pm))" by simp
  from writeBegin_full_written [OF this assms(1,2), of "[]" "vm pm"] False show ?thesis
    by (auto simp: writeBegin_def split: prod.splits)
qed

lemma writeTransaction_unfold:
  assumes "writeBegin pm incremental = (vmo, pm1)"
    and "writeTransaction ops sha pm s incremental ofs0 sync rank = (n, pm', s')"
  shows "\<exists>ofs1. wt_io ops sha s incremental ofs0 sync (range_order rank vmo) = (n, s', ofs1)
    \<and> pm' = writeEnd (pm1\<lparr>fs := Some s'\<rparr>) n ofs1 vmo"
  using assms by (auto simp: writeTransaction_def split: prod.splits)

lemma writeTransaction_redirties:
  assumes "writeTransaction ops sha pm s incremental ofs0 sync rank = (n, pm', s')" and "n < 0"
    and "map_of (fst (writeBegin pm incremental)) k = Some v" and "v AND DIRT \<noteq> 0"
  shows "(\<exists>x. map_of (vm pm') k = Some x \<and> x AND DIRT \<noteq> 0) \<and> k \<in> set (dl pm')"
proof -
  obtain vmo pm1 where wb: "writeBegin pm incremental = (vmo, pm1)"
    by (cases "writeBegin pm incremental")
  with assms(3) have m: "map_of vmo k = Some v" by simp
  from writeBegin_clean [OF wb m] obtain x where
    x: "map_of (vm (pm1\<lparr>fs := Some s'\<rparr>)) k = Some x" "x AND DIRT = 0" by auto
  from writeTransaction_unfold [OF wb assms(1)] assms(2) obtain ofs1 where
    "pm' = fold writeEnd_step vmo (pm1\<lparr>fs := Some s'\<rparr>)"
    by (auto simp: writeEnd_def)
  with writeEnd_fold_redirties [OF m assms(4) x] show ?thesis by simp
qed


lemma pm_dirty_whiteout_by_Set: "Set idsum id pm_unwritable ''/p'' WHITEOUT = Inr pm_dirty_whiteout"
  by code_simp



section \<open>The order of a range over a map\<close>

lemma range_order_set: "set (range_order r m) = set m"
  by (simp add: range_order_def)

lemma range_order_length: "length (range_order r m) = length m"
  by (simp add: range_order_def)

lemma range_order_Nil: "range_order r m = [] \<longleftrightarrow> m = []"
  using range_order_length [of r m] by (metis length_0_conv)

lemma range_order_mset: "mset (range_order r m) = mset m"
  by (simp add: range_order_def)

lemma keys16_range_order: "keys16 (range_order r m) = keys16 m"
  by (simp add: keys16_def list_all_iff range_order_set)

lemma insort_key_map: "insort_key f (g x) (map g ys) = map g (insort_key (\<lambda>x. f (g x)) x ys)"
  by (induction ys) simp_all

lemma sort_key_map: "sort_key f (map g xs) = map g (sort_key (\<lambda>x. f (g x)) xs)"
  by (induction xs) (simp_all add: insort_key_map)

lemma range_order_masked: "range_order r (masked m) = masked (range_order r m)"
  by (simp add: range_order_def masked_def sort_key_map)

lemma range_order_durables: "range_order r (durables m) = durables (range_order r m)"
  by (simp add: range_order_def durables_def filter_sort)

lemma range_order_paths:
  "range_order r (map (\<lambda>p. (ComputePathkey sha fc p caseins, v)) ps) =
     map (\<lambda>p. (ComputePathkey sha fc p caseins, v)) (visit_order sha fc caseins r ps)"
  by (simp add: range_order_def visit_order_def sort_key_map)

lemma visit_order_length: "length (visit_order sha fc caseins r ps) = length ps"
  by (simp add: visit_order_def)

lemma visit_order_set: "set (visit_order sha fc caseins r ps) = set ps"
  by (simp add: visit_order_def)

text \<open>Every order of a map with different keys is the order of a ranking.\<close>

lemma position_nth: "a \<in> set ks \<Longrightarrow> ks ! position ks a = a"
  by (induction ks) auto

lemma position_inj:
  assumes "a \<in> set ks" "b \<in> set ks" "position ks a = position ks b"
  shows "a = b"
proof -
  from position_nth [OF assms(1)] have "a = ks ! position ks a" by simp
  also have "\<dots> = ks ! position ks b" by (simp only: assms(3))
  also from position_nth [OF assms(2)] have "\<dots> = b" .
  finally show ?thesis .
qed

lemma position_self: "distinct ks \<Longrightarrow> map (position ks) ks = [0..<length ks]"
proof (induction ks)
  case Nil
  show ?case by simp
next
  case (Cons k ks)
  from Cons.prems have nk: "\<forall>x\<in>set ks. x \<noteq> k" and d: "distinct ks" by auto
  from nk have "map (position (k # ks)) ks = map (\<lambda>x. Suc (position ks x)) ks"
    by (intro map_cong) auto
  also have "\<dots> = map Suc (map (position ks) ks)" by (simp only: map_map comp_def)
  also have "\<dots> = map Suc [0..<length ks]" by (simp only: Cons.IH [OF d])
  also have "\<dots> = [Suc 0..<Suc (length ks)]" by (rule map_Suc_upt)
  finally have t: "map (position (k # ks)) ks = [Suc 0..<Suc (length ks)]" .
  have "map (position (k # ks)) (k # ks) = position (k # ks) k # map (position (k # ks)) ks"
    by (simp only: list.map)
  also have "\<dots> = 0 # [Suc 0..<Suc (length ks)]" by (simp only: t position.simps simp_thms if_True)
  also have "\<dots> = [0..<Suc (length ks)]" by (rule upt_conv_Cons [symmetric]) simp
  finally show ?case by (simp only: length_Cons)
qed

lemma range_order_any:
  assumes "distinct (map fst m)" "mset xs = mset m"
  shows "range_order (position (map fst xs)) m = xs"
proof -
  let ?f = "\<lambda>kv. position (map fst xs) (fst kv)"
  from assms(2) have "mset (map fst xs) = mset (map fst m)" by simp
  with assms(1) have dx: "distinct (map fst xs)" by (metis mset_eq_imp_distinct_iff)
  from assms(2) have se: "set xs = set m" by (rule mset_eq_setD)
  from dx have inj: "inj_on fst (set xs)" by (simp add: distinct_map)
  have "map ?f xs = map (position (map fst xs)) (map fst xs)" by simp
  also from dx have "\<dots> = [0..<length (map fst xs)]" by (rule position_self)
  finally have so: "sorted (map ?f xs)" by simp
  have eq: "?f k = ?f x \<longleftrightarrow> k = x" if "k \<in> set xs" "x \<in> set xs" for k x
  proof
    assume a: "?f k = ?f x"
    from that have "fst k \<in> set (map fst xs)" "fst x \<in> set (map fst xs)" by simp_all
    from position_inj [OF this a] have "fst k = fst x" .
    with inj that show "k = x" by (auto dest: inj_onD)
  qed simp
  have fi: "filter (\<lambda>x. ?f k = ?f x) xs = filter (\<lambda>x. ?f k = ?f x) m" if "k \<in> set xs" for k
  proof -
    from that eq have "filter (\<lambda>x. ?f k = ?f x) xs = filter ((=) k) xs"
      by (intro filter_cong) auto
    also have "\<dots> = replicate (count (mset xs) k) k"
      by (rule replicate_count_mset_eq_filter_eq [symmetric])
    also have "\<dots> = filter ((=) k) m"
      unfolding assms(2) by (rule replicate_count_mset_eq_filter_eq)
    also from that eq se have "\<dots> = filter (\<lambda>x. ?f k = ?f x) m"
      by (intro filter_cong) auto
    finally show ?thesis .
  qed
  from properties_for_sort_key [of xs m ?f, OF assms(2) fi so] show ?thesis
    by (simp add: range_order_def)
qed


section \<open>What writeTransaction puts on disk\<close>

lemma length_concat16: "records16 rs \<Longrightarrow> length (concat rs) = 16 * length rs"
  by (induction rs) (auto simp: records16_def)

lemma rec_of_16: "length k = 16 \<Longrightarrow> length (rec_of (k, v)) = 16"
  by (simp add: rec_of_def)

lemma records16_recs: "keys16 m \<Longrightarrow> records16 (map rec_of m)"
  by (induction m) (auto simp: keys16_def records16_def rec_of_def)

lemma records16_append: "records16 (a @ b) = (records16 a \<and> records16 b)"
  by (simp add: records16_def)

lemma length_Sum256: "length (Sum256 sha h) = 32"
  by (simp add: Sum256_def)

lemma length_chunk_hdr: "length (chunk_hdr sha c cmd n h) = 16"
  by (simp add: chunk_hdr_def PutUint16_def length_Sum256)

lemma pwrite_pwrite:
  "pwrite (pwrite f off a) (off + length a) b = pwrite f off (a @ b)"
proof -
  define P where "P = take off (f @ replicate (off - length f) 0)"
  define R where "R = drop (off + length a) f"
  have l: "length P = off" by (simp add: P_def)
  have g: "pwrite f off a = (P @ a) @ R" by (simp add: pwrite_def P_def R_def)
  have t: "take (off + length a) (((P @ a) @ R) @ replicate n 0) = P @ a" for n
    using l by simp
  have d: "drop (off + length a + length b) ((P @ a) @ R) = drop (length b) R"
    using l by simp
  have "drop (length b) R = drop (off + length (a @ b)) f"
    by (simp add: R_def add.commute add.left_commute)
  with t d show ?thesis
    unfolding pwrite_def [of "pwrite f off a"] g
    by (simp add: pwrite_def P_def)
qed

text \<open>The closure \<open>write\<close> on the storage in memory.\<close>

lemma write_chunk_mem:
  assumes "wbuf w = concat p" "wcnt w = int (length p)" "records16 p" "0 \<le> wofs w"
  shows "write_chunk mem_ops sha s w cmd =
     (16 + 16 * int (length p),
      s\<lparr>content := pwrite (content s) (nat (wofs w))
             (chunk_hdr sha (chi w) cmd (int (length p)) (whsh w @ concat p) @ concat p),
        events := events s @ [EvWrite (wofs w)
             (chunk_hdr sha (chi w) cmd (int (length p)) (whsh w @ concat p) @ concat p)]\<rparr>,
      w\<lparr>whsh := whsh w @ concat p, wofs := wofs w + (16 + 16 * int (length p))\<rparr>)"
proof -
  have "length (chunk_hdr sha (chi w) cmd (int (length p)) (whsh w @ concat p) @ concat p)
      = 16 + 16 * length p"
    using assms(3) by (simp add: length_chunk_hdr length_concat16)
  then show ?thesis
    using assms(1,2) unfolding write_chunk_def
    by (simp add: Let_def mem_ops_def chunk_hdr_def ptr_def length_concat16 [OF assms(3)])
qed

lemma wt_chunks_Nil:
  "wt_chunks ops sha s w [] cmd =
     (if 16 < ptr w then
        (case write_chunk ops sha s w cmd of
           (n, s2, w2) \<Rightarrow> (if 0 > n then Some n else None, s2, w2))
      else (None, s, w))"
  by (simp add: wt_chunks_def)

lemma wt_chunks_flush:
  assumes "4096 * 16 \<le> ptr w" "write_chunk ops sha s w 0x50 = (n, s1, w1)" "\<not> 0 > n"
  shows "wt_chunks ops sha s w ((k, v) # kvs) cmd =
     wt_chunks ops sha s1
       (w1\<lparr>chi := 0x30, wbuf := rec_of (k, v), wcnt := 1\<rparr>) kvs cmd"
  using assms by (simp add: wt_chunks_def rec_of_def)

lemma wt_chunks_add:
  assumes "\<not> 4096 * 16 \<le> ptr w"
  shows "wt_chunks ops sha s w ((k, v) # kvs) cmd =
     wt_chunks ops sha s
       (w\<lparr>wbuf := wbuf w @ rec_of (k, v), wcnt := (wcnt w + 1) mod 65536\<rparr>) kvs cmd"
  using assms by (simp add: wt_chunks_def rec_of_def)

lemma chunk_images_single:
  "length rs \<le> 4095 \<Longrightarrow>
     chunk_images sha c h cmd rs = [chunk_hdr sha c cmd (int (length rs)) (h @ concat rs) @ concat rs]"
  by (subst chunk_images.simps) simp

lemma chunk_images_split:
  "length p = 4095 \<Longrightarrow> rs \<noteq> [] \<Longrightarrow>
     chunk_images sha c h cmd (p @ rs) =
       (chunk_hdr sha c 0x50 4095 (h @ concat p) @ concat p)
       # chunk_images sha 0x30 (h @ concat p) cmd rs"
  by (subst chunk_images.simps) (auto simp: neq_Nil_conv)

lemma wt_chunks_mem:
  assumes "keys16 vmo" "records16 p" "length p \<le> 4095" "wbuf w = concat p"
    "wcnt w = int (length p)" "0 \<le> wofs w" "p @ map rec_of vmo \<noteq> []"
  shows "\<exists>w'. wt_chunks mem_ops sha s w vmo cmd =
      (None,
       s\<lparr>content := pwrite (content s) (nat (wofs w))
              (concat (chunk_images sha (chi w) (whsh w) cmd (p @ map rec_of vmo))),
         events := events s
            @ write_events (wofs w) (chunk_images sha (chi w) (whsh w) cmd (p @ map rec_of vmo))\<rparr>,
       w')
    \<and> wofs w' = wofs w
        + int (length (concat (chunk_images sha (chi w) (whsh w) cmd (p @ map rec_of vmo))))"
  using assms
proof (induction vmo arbitrary: s w p)
  case Nil
  then have ne: "p \<noteq> []" by simp
  then have "16 < ptr w" using Nil.prems(2,4) by (cases p) (auto simp: ptr_def records16_def)
  define img where "img = chunk_hdr sha (chi w) cmd (int (length p)) (whsh w @ concat p) @ concat p"
  have li: "int (length img) = 16 + 16 * int (length p)"
    using Nil.prems(2) by (simp add: img_def length_chunk_hdr length_concat16)
  have ci: "chunk_images sha (chi w) (whsh w) cmd (p @ map rec_of []) = [img]"
    using Nil.prems(3) by (simp add: chunk_images_single img_def)
  have "wt_chunks mem_ops sha s w [] cmd =
      (None,
       s\<lparr>content := pwrite (content s) (nat (wofs w)) (concat [img]),
         events := events s @ write_events (wofs w) [img]\<rparr>,
       w\<lparr>whsh := whsh w @ concat p, wofs := wofs w + (16 + 16 * int (length p))\<rparr>)"
    using \<open>16 < ptr w\<close> write_chunk_mem [OF Nil.prems(4,5,2,6), of sha s cmd]
    by (simp add: wt_chunks_Nil img_def)
  then show ?case unfolding ci using li by simp
next
  case (Cons kv vmo)
  obtain k v where kv: "kv = (k, v)" by (cases kv)
  from Cons.prems(1) kv have k16: "length k = 16" and ks: "keys16 vmo"
    by (simp_all add: keys16_def)
  have r16: "records16 [rec_of (k, v)]" using k16 by (simp add: records16_def rec_of_def)
  have lp: "length (concat p) = 16 * length p" using Cons.prems(2) by (rule length_concat16)
  show ?case
  proof (cases "length p = 4095")
    case True
    define img where "img = chunk_hdr sha (chi w) 0x50 4095 (whsh w @ concat p) @ concat p"
    define h1 where "h1 = whsh w @ concat p"
    define rs where "rs = rec_of (k, v) # map rec_of vmo"
    define imgs where "imgs = chunk_images sha 0x30 h1 cmd rs"
    have li: "length img = 65536" using lp True by (simp add: img_def length_chunk_hdr)
    have full: "4096 * 16 \<le> ptr w" using Cons.prems(4) lp True by (simp add: ptr_def)
    define s1 where "s1 = s\<lparr>content := pwrite (content s) (nat (wofs w)) img,
        events := events s @ [EvWrite (wofs w) img]\<rparr>"
    define w2 where "w2 = w\<lparr>whsh := h1, wofs := wofs w + 65536, chi := 0x30,
        wbuf := rec_of (k, v), wcnt := 1\<rparr>"
    have wc': "write_chunk mem_ops sha s w 0x50
        = (65536, s1, w\<lparr>whsh := h1, wofs := wofs w + 65536\<rparr>)"
      using write_chunk_mem [OF Cons.prems(4,5,2,6), of sha s "0x50"] True
      by (simp add: img_def s1_def h1_def)
    have step: "wt_chunks mem_ops sha s w (kv # vmo) cmd = wt_chunks mem_ops sha s1 w2 vmo cmd"
      unfolding kv w2_def by (rule wt_chunks_flush [OF full wc']) simp
    have "\<exists>w'. wt_chunks mem_ops sha s1 w2 vmo cmd =
      (None,
       s1\<lparr>content := pwrite (content s1) (nat (wofs w2))
              (concat (chunk_images sha (chi w2) (whsh w2) cmd ([rec_of (k, v)] @ map rec_of vmo))),
         events := events s1
            @ write_events (wofs w2) (chunk_images sha (chi w2) (whsh w2) cmd ([rec_of (k, v)] @ map rec_of vmo))\<rparr>,
       w')
      \<and> wofs w' = wofs w2
        + int (length (concat (chunk_images sha (chi w2) (whsh w2) cmd ([rec_of (k, v)] @ map rec_of vmo))))"
      by (rule Cons.IH [OF ks r16]) (use Cons.prems(6) in \<open>simp_all add: w2_def\<close>)
    moreover have "chunk_images sha (chi w2) (whsh w2) cmd ([rec_of (k, v)] @ map rec_of vmo) = imgs"
      by (simp add: imgs_def rs_def w2_def)
    ultimately obtain w' where
      r: "wt_chunks mem_ops sha s1 w2 vmo cmd =
        (None,
         s1\<lparr>content := pwrite (content s1) (nat (wofs w2)) (concat imgs),
            events := events s1 @ write_events (wofs w2) imgs\<rparr>,
         w')"
      and o: "wofs w' = wofs w2 + int (length (concat imgs))"
      by auto
    have ci: "chunk_images sha (chi w) (whsh w) cmd (p @ map rec_of (kv # vmo)) = img # imgs"
      unfolding kv img_def imgs_def h1_def rs_def
      using chunk_images_split [OF True, of "rec_of (k, v) # map rec_of vmo"] by simp
    have n: "nat (wofs w + 65536) = nat (wofs w) + length img"
      using Cons.prems(6) li by simp
    have cont: "pwrite (pwrite (content s) (nat (wofs w)) img) (nat (wofs w + 65536)) (concat imgs)
        = pwrite (content s) (nat (wofs w)) (img @ concat imgs)"
      unfolding n by (rule pwrite_pwrite)
    have "wt_chunks mem_ops sha s w (kv # vmo) cmd =
      (None,
       s\<lparr>content := pwrite (content s) (nat (wofs w)) (concat (img # imgs)),
         events := events s @ write_events (wofs w) (img # imgs)\<rparr>,
       w')"
      unfolding step r by (simp add: s1_def w2_def cont li)
    moreover have "wofs w' = wofs w + int (length (concat (img # imgs)))"
      using o li by (simp add: w2_def)
    ultimately show ?thesis unfolding ci by blast
  next
    case False
    with Cons.prems(3) have lt: "length p < 4095" by simp
    then have nf: "\<not> 4096 * 16 \<le> ptr w" using Cons.prems(4) lp by (simp add: ptr_def)
    let ?w2 = "w\<lparr>wbuf := wbuf w @ rec_of (k, v), wcnt := (wcnt w + 1) mod 65536\<rparr>"
    have step: "wt_chunks mem_ops sha s w ((k, v) # vmo) cmd = wt_chunks mem_ops sha s ?w2 vmo cmd"
      by (rule wt_chunks_add [OF nf])
    have c: "(wcnt w + 1) mod 65536 = int (length (p @ [rec_of (k, v)]))"
      using Cons.prems(5) lt by simp
    have "\<exists>w'. wt_chunks mem_ops sha s ?w2 vmo cmd =
      (None,
       s\<lparr>content := pwrite (content s) (nat (wofs ?w2))
              (concat (chunk_images sha (chi ?w2) (whsh ?w2) cmd ((p @ [rec_of (k, v)]) @ map rec_of vmo))),
         events := events s
            @ write_events (wofs ?w2) (chunk_images sha (chi ?w2) (whsh ?w2) cmd ((p @ [rec_of (k, v)]) @ map rec_of vmo))\<rparr>,
       w')
      \<and> wofs w' = wofs ?w2
        + int (length (concat (chunk_images sha (chi ?w2) (whsh ?w2) cmd ((p @ [rec_of (k, v)]) @ map rec_of vmo))))"
    proof (rule Cons.IH [OF ks])
      show "records16 (p @ [rec_of (k, v)])"
        using Cons.prems(2) r16 by (simp add: records16_append)
      show "length (p @ [rec_of (k, v)]) \<le> 4095" using lt by simp
      show "wbuf ?w2 = concat (p @ [rec_of (k, v)])" using Cons.prems(4) by simp
      show "wcnt ?w2 = int (length (p @ [rec_of (k, v)]))" using c by simp
      show "0 \<le> wofs ?w2" using Cons.prems(6) by simp
      show "(p @ [rec_of (k, v)]) @ map rec_of vmo \<noteq> []" by simp
    qed
    then show ?thesis unfolding kv step by simp
  qed
qed

lemma chunk_images_length: "16 \<le> length (concat (chunk_images sha c h cmd rs))"
  by (subst chunk_images.simps) (simp add: length_chunk_hdr)

lemma wt_sync_mem: "wt_sync mem_ops sync s = (0, s\<lparr>events := events s @ sync_events sync\<rparr>)"
  by (simp add: wt_sync_def mem_ops_def sync_events_def)

lemma mem_Truncate:
  "fs_Truncate mem_ops s len =
     (0, s\<lparr>content := take (nat len) (content s @ replicate (nat len - length (content s)) 0),
           events := events s @ [EvTruncate len]\<rparr>)"
  by (simp add: mem_ops_def)

lemma wt_chunks_empty: "wt_chunks ops sha s \<lparr>wbuf = [], whsh = [], chi = c, wcnt = 0, wofs = off\<rparr> [] cmd
    = (None, s, \<lparr>wbuf = [], whsh = [], chi = c, wcnt = 0, wofs = off\<rparr>)"
  by (simp add: wt_chunks_Nil ptr_def)

lemma wt_io_empty: "wt_io ops sha s incremental ofs0 sync [] = (0, s, ofs0)"
  by (simp add: wt_io_def wt_chunks_empty)

lemma wt_io_mem:
  assumes "keys16 vmo" "vmo \<noteq> []" "0 \<le> ofs0"
    and "imgs = chunk_images sha 0x31 [] (if incremental then 0x41 else 0x53) (map rec_of vmo)"
  shows "wt_io mem_ops sha s incremental ofs0 sync vmo =
     (1,
      s\<lparr>content :=
           (if \<not> incremental \<and> 0 = ofs0 then concat imgs
            else pwrite (content s) (nat ofs0) (concat imgs)),
        events := events s @ write_events ofs0 imgs @ sync_events sync
           @ (if \<not> incremental \<and> 0 = ofs0
              then EvTruncate (ofs0 + int (length (concat imgs))) # sync_events sync else [])\<rparr>,
      ofs0 + int (length (concat imgs)))"
proof -
  let ?cmd = "if incremental then 0x41 else 0x53 :: byte"
  let ?w0 = "\<lparr>wbuf = [], whsh = [], chi = 0x31, wcnt = 0, wofs = ofs0\<rparr>"
  have "\<exists>w'. wt_chunks mem_ops sha s ?w0 vmo ?cmd =
      (None,
       s\<lparr>content := pwrite (content s) (nat (wofs ?w0))
              (concat (chunk_images sha (chi ?w0) (whsh ?w0) ?cmd ([] @ map rec_of vmo))),
         events := events s
            @ write_events (wofs ?w0) (chunk_images sha (chi ?w0) (whsh ?w0) ?cmd ([] @ map rec_of vmo))\<rparr>,
       w')
    \<and> wofs w' = wofs ?w0
        + int (length (concat (chunk_images sha (chi ?w0) (whsh ?w0) ?cmd ([] @ map rec_of vmo))))"
    by (rule wt_chunks_mem [OF assms(1)]) (use assms(2,3) in \<open>simp_all add: records16_def\<close>)
  then obtain w' where
    c: "wt_chunks mem_ops sha s ?w0 vmo ?cmd =
      (None,
       s\<lparr>content := pwrite (content s) (nat ofs0) (concat imgs),
         events := events s @ write_events ofs0 imgs\<rparr>, w')"
    and o: "wofs w' = ofs0 + int (length (concat imgs))"
    using assms(4) by auto
  have l: "16 \<le> length (concat imgs)" unfolding assms(4) by (rule chunk_images_length)
  then have ne: "wofs w' \<noteq> ofs0" using o by arith
  have tr: "take (length (concat imgs)) (pwrite (content s) 0 (concat imgs))
      @ replicate (length (concat imgs) - length (pwrite (content s) 0 (concat imgs))) 0
      = concat imgs"
    by (simp add: pwrite_def)
  show ?thesis
  proof (cases "\<not> incremental \<and> 0 = ofs0")
    case True
    then have i: "incremental = False" "ofs0 = 0" by simp_all
    show ?thesis
      unfolding wt_io_def Let_def c using ne o tr l
      by (simp add: i wt_sync_mem mem_Truncate ENOSYS_def)
  next
    case False
    then show ?thesis
      unfolding wt_io_def Let_def c using ne o
      by (auto simp add: wt_sync_mem ENOSYS_def)
  qed
qed

lemma Uint16_PutUint16: "0 \<le> n \<Longrightarrow> n < 65536 \<Longrightarrow> Uint16 (PutUint16 n @ xs) = n"
proof -
  assume n: "0 \<le> n" "n < 65536"
  have a: "uint (word_of_int (n mod 256) :: byte) = n mod 256"
    by (simp add: uint_word_of_int take_bit_eq_mod)
  have b: "uint (word_of_int (n div 256 mod 256) :: byte) = n div 256 mod 256"
    by (simp add: uint_word_of_int take_bit_eq_mod)
  from n have "n div 256 mod 256 = n div 256" by simp
  with a b show ?thesis by (simp add: Uint16_def PutUint16_def)
qed

lemma chunk_hdr_fields:
  "chunk_hdr sha c cmd n h ! 0 = c" "chunk_hdr sha c cmd n h ! 1 = cmd"
  "chunk_hdr sha c cmd n h ! Suc 0 = cmd"
  "drop 2 (chunk_hdr sha c cmd n h @ xs) = PutUint16 n @ take 12 (Sum256 sha h) @ xs"
  "take 12 (drop 4 (chunk_hdr sha c cmd n h @ xs)) = take 12 (Sum256 sha h)"
  by (simp_all add: chunk_hdr_def PutUint16_def length_Sum256)

lemma length_ComputePathkey: "length (ComputePathkey sha fc path caseins) = 16"
  by (simp add: ComputePathkey_def pathkey_of_digest_def length_Sum256)


lemma update_append_notin:
  "k \<notin> fst ` set p \<Longrightarrow> AList.update k v (p @ q) = p @ AList.update k v q"
  by (induction p) auto

lemma update_notin: "k \<notin> fst ` set p \<Longrightarrow> AList.update k v p = p @ [(k, v)]"
  by (induction p) auto

lemma writeBegin_full_fst:
  "distinct (map fst xs) \<Longrightarrow> fst ` set vmo \<inter> fst ` set xs = {} \<Longrightarrow>
     fst (fold writeBegin_full xs (vmo, m)) = vmo @ durables xs"
proof (induction xs arbitrary: vmo m)
  case Nil
  show ?case by (simp add: durables_def)
next
  case (Cons x xs)
  obtain k v where x: "x = (k, v)" by (cases x)
  from Cons.prems x have k: "k \<notin> fst ` set vmo" "k \<notin> fst ` set xs" "distinct (map fst xs)"
    "fst ` set vmo \<inter> fst ` set xs = {}" by auto
  show ?case
  proof (cases "durable v")
    case True
    from k have "fst ` set (vmo @ [(k, v)]) \<inter> fst ` set xs = {}" by auto
    from Cons.IH [OF k(3) this] True x k(1) show ?thesis
      by (simp add: writeBegin_full_def update_notin durables_def)
  next
    case False
    from Cons.IH [OF k(3,4)] False x show ?thesis
      by (simp add: writeBegin_full_def durables_def)
  qed
qed

lemma writeBegin_full_snd:
  "snd (fold writeBegin_full xs (vmo, m)) =
     fold (\<lambda>kv. AList.update (fst kv) (snd kv AND MASK)) xs m"
proof (induction xs arbitrary: vmo m)
  case Nil
  show ?case by simp
next
  case (Cons x xs)
  obtain k v where x: "x = (k, v)" by (cases x)
  from Cons.IH x show ?case by (simp add: writeBegin_full_def)
qed

lemma fold_update_self:
  "distinct (map fst (p @ xs)) \<Longrightarrow>
     fold (\<lambda>kv. AList.update (fst kv) (f (snd kv))) xs (p @ xs) =
       p @ map (\<lambda>kv. (fst kv, f (snd kv))) xs"
proof (induction xs arbitrary: p)
  case Nil
  show ?case by simp
next
  case (Cons x xs)
  obtain k v where x: "x = (k, v)" by (cases x)
  from Cons.prems x have k: "k \<notin> fst ` set p" by auto
  from Cons.prems x have d: "distinct (map fst ((p @ [(k, f v)]) @ xs))" by auto
  have "AList.update k (f v) (p @ (k, v) # xs) = (p @ [(k, f v)]) @ xs"
    using k by (simp add: update_append_notin)
  with Cons.IH [OF d] x show ?case by simp
qed

lemma writeBegin_full_list:
  assumes "distinct (map fst (vm pm))"
  shows "writeBegin pm False = (durables (vm pm), pm\<lparr>vm := masked (vm pm), dl := []\<rparr>)"
proof -
  have a: "fst (fold writeBegin_full (vm pm) ([], vm pm)) = durables (vm pm)"
    using writeBegin_full_fst [OF assms, of "[]" "vm pm"] by simp
  have b: "snd (fold writeBegin_full (vm pm) ([], vm pm)) = masked (vm pm)"
    using fold_update_self [of "[]" "vm pm" "\<lambda>v. v AND MASK"] assms
    by (simp add: writeBegin_full_snd masked_def)
  from a b show ?thesis by (simp add: writeBegin_def case_prod_beta)
qed

lemma durable_masked: "durable (v AND MASK) = durable v"
  by (simp add: durable_def mask_mask)

lemma dirt_or_masked: "DIRT OR (v AND MASK) = DIRT OR v"
  unfolding DIRT_def MASK_def by (rule bit_eqI) (simp only: byte_bits, auto)

lemma recs_masked: "map rec_of (durables (masked m)) = map rec_of (durables m)"
  by (induction m) (auto simp: durables_def masked_def rec_of_def durable_masked dirt_or_masked)

lemma masked_masked: "masked (masked m) = masked m"
  by (simp add: masked_def mask_mask comp_def)

lemma keys_masked: "map fst (masked m) = map fst m"
  by (simp add: masked_def comp_def)

lemma keys16_masked: "keys16 (masked m) = keys16 m"
  by (simp add: masked_def keys16_def list_all_iff case_prod_beta)

lemma keys16_durables: "keys16 m \<Longrightarrow> keys16 (durables m)"
  by (simp add: durables_def keys16_def list_all_iff)

lemma durables_masked_Nil: "durables (masked m) = [] \<longleftrightarrow> durables m = []"
  using recs_masked [of m] by (metis map_is_Nil_conv)

lemma length_masked: "length (masked m) = length m"
  by (simp add: masked_def)

lemma durables_masked: "durables (masked m) = masked (durables m)"
  by (induction m) (simp_all add: durables_def masked_def durable_masked)

lemma rec_of_masked: "map rec_of (masked m) = map rec_of m"
  by (simp add: masked_def rec_of_def dirt_or_masked case_prod_beta)

lemma recs_ordered_masked:
  "map rec_of (range_order r (durables (masked m))) = map rec_of (range_order r (durables m))"
  by (simp add: durables_masked range_order_masked rec_of_masked)

lemma writeTransaction_full_mem:
  assumes "distinct (map fst (vm pm))" "keys16 (vm pm)" "durables (vm pm) \<noteq> []" "0 \<le> ofs0"
    and "imgs = chunk_images sha 0x31 [] 0x53 (map rec_of (range_order rank (durables (vm pm))))"
  shows "writeTransaction mem_ops sha pm s False ofs0 sync rank =
     (1,
      pm\<lparr>vm := masked (vm pm), dl := [],
         fs := Some (s\<lparr>content :=
             (if 0 = ofs0 then concat imgs else pwrite (content s) (nat ofs0) (concat imgs)),
           events := events s @ write_events ofs0 imgs @ sync_events sync
             @ (if 0 = ofs0
                then EvTruncate (ofs0 + int (length (concat imgs))) # sync_events sync else [])\<rparr>),
         ofs := ofs0 + int (length (concat imgs))\<rparr>,
      s\<lparr>content :=
             (if 0 = ofs0 then concat imgs else pwrite (content s) (nat ofs0) (concat imgs)),
           events := events s @ write_events ofs0 imgs @ sync_events sync
             @ (if 0 = ofs0
                then EvTruncate (ofs0 + int (length (concat imgs))) # sync_events sync else [])\<rparr>)"
proof -
  note wb = writeBegin_full_list [OF assms(1)]
  have i: "imgs = chunk_images sha 0x31 [] (if False then 0x41 else 0x53)
      (map rec_of (range_order rank (durables (vm pm))))"
    using assms(5) by simp
  have k: "keys16 (range_order rank (durables (vm pm)))"
    using keys16_durables [OF assms(2)] by (simp add: keys16_range_order)
  have ne: "range_order rank (durables (vm pm)) \<noteq> []"
    using assms(3) by (simp add: range_order_Nil)
  have io: "wt_io mem_ops sha s False ofs0 sync (range_order rank (durables (vm pm))) =
     (1,
      s\<lparr>content :=
           (if 0 = ofs0 then concat imgs else pwrite (content s) (nat ofs0) (concat imgs)),
        events := events s @ write_events ofs0 imgs @ sync_events sync
           @ (if 0 = ofs0
              then EvTruncate (ofs0 + int (length (concat imgs))) # sync_events sync else [])\<rparr>,
      ofs0 + int (length (concat imgs)))"
    using wt_io_mem [where incremental = False and vmo = "range_order rank (durables (vm pm))"
        and sha = sha and imgs = imgs and s = s and sync = sync and ?ofs0.0 = ofs0,
        OF k ne assms(4) i]
    by simp
  show ?thesis
    by (simp add: writeTransaction_def wb io writeEnd_def)
qed

lemma Write_full_mem:
  assumes "fs pm = Some s" "bloated pm" "distinct (map fst (vm pm))" "keys16 (vm pm)"
    "durables (vm pm) \<noteq> []"
    and "imgs1 = chunk_images sha 0x31 [] 0x53 (map rec_of (range_order (ro 0) (durables (vm pm))))"
    and "imgs2 = chunk_images sha 0x31 [] 0x53 (map rec_of (range_order (ro 1) (durables (vm pm))))"
  shows "Write mem_ops sha pm sync ro =
     (1,
      pm\<lparr>vm := masked (vm pm), dl := [],
         fs := Some \<lparr>content = concat imgs2,
           events = events s @ write_events (ofs pm) imgs1 @ sync_events sync
             @ write_events 0 imgs2 @ sync_events sync
             @ EvTruncate (int (length (concat imgs2))) # sync_events sync\<rparr>,
         ofs := int (length (concat imgs2))\<rparr>)"
proof -
  from assms(2) have o: "0 \<le> ofs pm" "0 \<noteq> ofs pm" by (auto simp: bloated_def)
  define s1 where "s1 = s\<lparr>content := pwrite (content s) (nat (ofs pm)) (concat imgs1),
     events := events s @ write_events (ofs pm) imgs1 @ sync_events sync\<rparr>"
  define pm1 where "pm1 = pm\<lparr>vm := masked (vm pm), dl := [], fs := Some s1,
     ofs := ofs pm + int (length (concat imgs1))\<rparr>"
  have t1: "writeTransaction mem_ops sha pm s False (ofs pm) sync (ro 0) = (1, pm1, s1)"
    using writeTransaction_full_mem [OF assms(3,4,5) o(1) assms(6), where s = s and sync = sync] o(2)
    by (simp add: pm1_def s1_def)
  have v1: "vm pm1 = masked (vm pm)" by (simp add: pm1_def)
  have d1: "distinct (map fst (vm pm1))" using assms(3) by (simp add: v1 keys_masked)
  have k1: "keys16 (vm pm1)" using assms(4) by (simp add: v1 keys16_masked)
  have n1: "durables (vm pm1) \<noteq> []" using assms(5) by (simp add: v1 durables_masked_Nil)
  have i1: "imgs2 = chunk_images sha 0x31 [] 0x53
      (map rec_of (range_order (ro 1) (durables (vm pm1))))"
    using assms(7) by (simp add: v1 recs_ordered_masked)
  note t2 = writeTransaction_full_mem [OF d1 k1 n1 order_refl i1, where s = s1 and sync = sync]
  from assms(2) have full: "1024 < ofs pm div 16 \<and> 2 * int (length (vm pm)) < ofs pm div 16"
    by (simp add: bloated_def)
  show ?thesis
    unfolding Write_def using assms(1) full t1 t2
    by (simp add: Let_def v1 masked_masked) (simp add: pm1_def s1_def)
qed

lemma chunk_images_last_cmd: "last (chunk_images sha c h cmd rs) ! Suc 0 = cmd"
proof (induction sha c h cmd rs rule: chunk_images.induct)
  case (1 sha c h cmd rs)
  show ?case
  proof (cases "length rs \<le> 4095")
    case True
    then show ?thesis by (subst chunk_images.simps) (simp add: chunk_hdr_def)
  next
    case False
    have "chunk_images sha 0x30 (h @ concat (take 4095 rs)) cmd (drop 4095 rs) \<noteq> []"
      by (subst chunk_images.simps) simp
    with False "1.IH" show ?thesis by (subst chunk_images.simps) simp
  qed
qed

lemma chunk_images_hd: "hd (chunk_images sha c h cmd rs) ! 0 = c"
  by (subst chunk_images.simps) (simp add: chunk_hdr_def)

section \<open>Incremental writes and the whiteout scenario\<close>

lemma map_of_mid: "k \<notin> fst ` set a \<Longrightarrow> map_of (a @ (k, x) # b) k = Some x"
  by (induction a) auto

lemma update_mid: "k \<notin> fst ` set a \<Longrightarrow> AList.update k y (a @ (k, x) # b) = a @ (k, y) # b"
  by (simp add: update_append_notin)

lemma Set_fresh_whiteout:
  assumes "map_of (vm pm) (ComputePathkey sha fc p (Caseins pm)) = None"
  shows "Set sha fc pm p WHITEOUT =
     Inr (pm\<lparr>vm := vm pm @ [(ComputePathkey sha fc p (Caseins pm), DIRT OR WHITEOUT)],
             dl := dl pm @ [ComputePathkey sha fc p (Caseins pm)]\<rparr>)"
proof -
  from assms have "ComputePathkey sha fc p (Caseins pm) \<notin> fst ` set (vm pm)"
    by (simp add: map_of_eq_None_iff)
  from update_notin [OF this] assms show ?thesis
    by (simp add: Set_def Let_def lookup_def pm_set_def vis_defs)
qed

lemma Set_whiteout_to_index:
  assumes "vm pm = a @ (ComputePathkey sha fc p (Caseins pm), WHITEOUT) # b"
    and "ComputePathkey sha fc p (Caseins pm) \<notin> fst ` set a" and "v \<le> NOTEXIST"
  shows "Set sha fc pm p v =
     Inr (pm\<lparr>vm := a @ (ComputePathkey sha fc p (Caseins pm), DIRT OR v) # b,
             dl := dl pm @ [ComputePathkey sha fc p (Caseins pm)]\<rparr>)"
proof -
  from assms(3) have v: "v \<le> 0x7c" by (simp add: vis_defs)
  then have m: "v \<le> MASK" "\<not> 0x7e < v" by (simp_all add: vis_defs word_le_def word_less_def)
  note vm = le_mask_id [OF m(1)]
  from map_of_mid [OF assms(2)] update_mid [OF assms(2)] assms(1) v m(2) vm show ?thesis
    by (simp add: Set_def Let_def lookup_def pm_set_def vis_defs)
qed

lemma Sets_whiteouts_gen:
  assumes "Caseins pm = c"
    and "vm pm = map (\<lambda>p. (ComputePathkey sha fc p c, DIRT OR WHITEOUT)) qs"
    and "dl pm = map (\<lambda>p. ComputePathkey sha fc p c) qs"
    and "distinct (map (\<lambda>p. ComputePathkey sha fc p c) (qs @ ps))"
  shows "Sets sha fc pm (map (\<lambda>p. (p, WHITEOUT)) ps) =
     Inr (pm\<lparr>vm := map (\<lambda>p. (ComputePathkey sha fc p c, DIRT OR WHITEOUT)) (qs @ ps),
             dl := map (\<lambda>p. ComputePathkey sha fc p c) (qs @ ps)\<rparr>)"
  using assms
proof (induction ps arbitrary: pm qs)
  case Nil
  then show ?case by simp
next
  case (Cons p ps)
  let ?K = "\<lambda>p. ComputePathkey sha fc p c"
  define pm' where "pm' = pm\<lparr>vm := vm pm @ [(?K p, DIRT OR WHITEOUT)], dl := dl pm @ [?K p]\<rparr>"
  from Cons.prems have "?K p \<notin> fst ` set (vm pm)" by (auto simp: image_iff)
  then have "map_of (vm pm) (ComputePathkey sha fc p (Caseins pm)) = None"
    using Cons.prems(1) by (simp add: map_of_eq_None_iff)
  from Set_fresh_whiteout [OF this] Cons.prems(1)
  have s: "Set sha fc pm p WHITEOUT = Inr pm'" by (simp add: pm'_def)
  have a: "Caseins pm' = c" using Cons.prems(1) by (simp add: pm'_def)
  have b: "vm pm' = map (\<lambda>p. (?K p, DIRT OR WHITEOUT)) (qs @ [p])"
    using Cons.prems(2) by (simp add: pm'_def)
  have d: "dl pm' = map ?K (qs @ [p])" using Cons.prems(3) by (simp add: pm'_def)
  have e: "distinct (map ?K ((qs @ [p]) @ ps))" using Cons.prems(4) by simp
  from Cons.IH [OF a b d e] s show ?case by (simp add: pm'_def)
qed

lemma Sets_index_gen:
  assumes "Caseins pm = c"
    and "vm pm = map (\<lambda>p. (ComputePathkey sha fc p c, DIRT OR idx p)) qs
           @ map (\<lambda>p. (ComputePathkey sha fc p c, WHITEOUT)) ps"
    and "dl pm = map (\<lambda>p. ComputePathkey sha fc p c) qs"
    and "distinct (map (\<lambda>p. ComputePathkey sha fc p c) (qs @ ps))"
    and "list_all (\<lambda>p. idx p \<le> NOTEXIST) ps"
  shows "Sets sha fc pm (map (\<lambda>p. (p, idx p)) ps) =
     Inr (pm\<lparr>vm := map (\<lambda>p. (ComputePathkey sha fc p c, DIRT OR idx p)) (qs @ ps),
             dl := map (\<lambda>p. ComputePathkey sha fc p c) (qs @ ps)\<rparr>)"
  using assms
proof (induction ps arbitrary: pm qs)
  case Nil
  then show ?case by simp
next
  case (Cons p ps)
  let ?K = "\<lambda>p. ComputePathkey sha fc p c"
  define a where "a = map (\<lambda>p. (?K p, DIRT OR idx p)) qs"
  define b where "b = map (\<lambda>p. (?K p, WHITEOUT)) ps"
  define pm' where "pm' = pm\<lparr>vm := a @ (?K p, DIRT OR idx p) # b, dl := dl pm @ [?K p]\<rparr>"
  from Cons.prems(2,1) have v: "vm pm = a @ (ComputePathkey sha fc p (Caseins pm), WHITEOUT) # b"
    by (simp add: a_def b_def)
  from Cons.prems(4,1) have n: "ComputePathkey sha fc p (Caseins pm) \<notin> fst ` set a"
    by (auto simp: a_def image_iff)
  from Cons.prems(5) have i: "idx p \<le> NOTEXIST" "list_all (\<lambda>p. idx p \<le> NOTEXIST) ps" by simp_all
  from Set_whiteout_to_index [OF v n i(1)] Cons.prems(1)
  have s: "Set sha fc pm p (idx p) = Inr pm'" by (simp add: pm'_def)
  have a': "Caseins pm' = c" using Cons.prems(1) by (simp add: pm'_def)
  have b': "vm pm' = map (\<lambda>p. (?K p, DIRT OR idx p)) (qs @ [p]) @ map (\<lambda>p. (?K p, WHITEOUT)) ps"
    by (simp add: pm'_def a_def b_def)
  have d: "dl pm' = map ?K (qs @ [p])" using Cons.prems(3) by (simp add: pm'_def)
  have e: "distinct (map ?K ((qs @ [p]) @ ps))" using Cons.prems(4) by simp
  from Cons.IH [OF a' b' d e i(2)] s show ?case by (simp add: pm'_def a_def b_def)
qed

lemma writeBegin_incr_all_gen:
  "distinct (map fst (p @ xs)) \<Longrightarrow> fst ` set vmo \<inter> fst ` set xs = {} \<Longrightarrow>
     fold writeBegin_incr (map fst xs) (vmo, p @ xs) =
       (vmo @ map (\<lambda>kv. (fst kv, delete_or_insert (snd kv))) xs, p @ masked xs)"
proof (induction xs arbitrary: p vmo)
  case Nil
  show ?case by (simp add: masked_def)
next
  case (Cons x xs)
  obtain k v where x: "x = (k, v)" by (cases x)
  from Cons.prems x have k: "k \<notin> fst ` set p" "k \<notin> fst ` set vmo" by auto
  from Cons.prems x have d: "distinct (map fst ((p @ [(k, v AND MASK)]) @ xs))" by auto
  from Cons.prems x have e: "fst ` set (vmo @ [(k, delete_or_insert v)]) \<inter> fst ` set xs = {}"
    by auto
  have "writeBegin_incr k (vmo, p @ (k, v) # xs) =
      (vmo @ [(k, delete_or_insert v)], (p @ [(k, v AND MASK)]) @ xs)"
    using map_of_mid [OF k(1)] update_mid [OF k(1)] update_notin [OF k(2)]
    by (simp add: writeBegin_incr_def lookup_def delete_or_insert_def)
  with Cons.IH [OF d e] x show ?case by (simp add: masked_def)
qed

lemma writeBegin_incr_all:
  assumes "distinct (map fst (vm pm))" "dl pm = map fst (vm pm)"
  shows "writeBegin pm True =
     (map (\<lambda>kv. (fst kv, delete_or_insert (snd kv))) (vm pm), pm\<lparr>vm := masked (vm pm), dl := []\<rparr>)"
  using writeBegin_incr_all_gen [of "[]" "vm pm" "[]"] assms
  by (simp add: writeBegin_def)

lemma pwrite_at_end: "pwrite f (length f) b = f @ b"
  by (simp add: pwrite_def)

lemma Write_incr_mem:
  assumes "fs pm = Some s" "\<not> bloated pm" "0 \<le> ofs pm"
    and "writeBegin pm True = (vmo, pm1)" "keys16 vmo" "vmo \<noteq> []"
    and "imgs = chunk_images sha 0x31 [] 0x41 (map rec_of (range_order (ro 0) vmo))"
  shows "Write mem_ops sha pm sync ro =
     (1,
      pm1\<lparr>fs := Some (s\<lparr>content := pwrite (content s) (nat (ofs pm)) (concat imgs),
              events := events s @ write_events (ofs pm) imgs @ sync_events sync\<rparr>),
          ofs := ofs pm + int (length (concat imgs))\<rparr>)"
proof -
  have k: "keys16 (range_order (ro 0) vmo)" "range_order (ro 0) vmo \<noteq> []"
    using assms(5,6) by (simp_all add: keys16_range_order range_order_Nil)
  have io: "wt_io mem_ops sha s True (ofs pm) sync (range_order (ro 0) vmo) =
     (1,
      s\<lparr>content := pwrite (content s) (nat (ofs pm)) (concat imgs),
        events := events s @ write_events (ofs pm) imgs @ sync_events sync\<rparr>,
      ofs pm + int (length (concat imgs)))"
    using wt_io_mem [where incremental = True and vmo = "range_order (ro 0) vmo" and sha = sha
        and imgs = imgs and s = s and sync = sync and ?ofs0.0 = "ofs pm",
        OF k assms(3)] assms(7)
    by simp
  from assms(2) have nf: "(1024 < ofs pm div 16 \<and> 2 * int (length (vm pm)) < ofs pm div 16) = False"
    by (simp add: bloated_def)
  from assms(1,4) io show ?thesis
    by (simp only: Write_def Let_def nf) (simp add: writeTransaction_def writeEnd_def)
qed

lemma chunk_images_one_length:
  "records16 rs \<Longrightarrow> length rs \<le> 4095 \<Longrightarrow>
     length (concat (chunk_images sha c h cmd rs)) = 16 * (length rs + 1)"
  by (subst chunk_images.simps) (simp add: length_chunk_hdr length_concat16)

lemma doi_whiteout: "delete_or_insert (DIRT OR WHITEOUT) = DIRT OR WHITEOUT"
  by (simp add: delete_or_insert_def durable_def dirt_or_mask vis_defs)

lemma doi_index: "v \<le> NOTEXIST \<Longrightarrow> delete_or_insert (DIRT OR v) = NOTEXIST"
proof -
  assume v: "v \<le> NOTEXIST"
  then have "v \<le> MASK" by (simp add: vis_defs word_le_def)
  from le_mask_id [OF this] have "(DIRT OR v) AND MASK = v" by (simp add: dirt_or_mask)
  with v have "(DIRT OR v) AND MASK \<le> 0x7c" by (simp add: NOTEXIST_def MASK_def)
  then have "(DIRT OR v) AND MASK \<noteq> 0x7d" "(DIRT OR v) AND MASK \<noteq> 0x7e" by auto
  then show ?thesis by (simp add: delete_or_insert_def durable_def vis_defs)
qed

lemma masked_whiteouts:
  "masked (map (\<lambda>p. (f p, DIRT OR WHITEOUT)) ps) = map (\<lambda>p. (f p, WHITEOUT)) ps"
  by (simp add: masked_def dirt_or_mask vis_defs)

lemma whiteout_image_length: "length (whiteout_image sha fc caseins ps v) = 16 * (length ps + 1)"
proof -
  have "records16 (map (\<lambda>p. rec_of (ComputePathkey sha fc p caseins, v)) ps)"
    by (simp add: records16_def list_all_iff rec_of_16 length_ComputePathkey)
  from length_concat16 [OF this] show ?thesis
    by (simp add: whiteout_image_def Let_def length_chunk_hdr)
qed

lemma whiteouts_back_to_index:
  assumes "distinct (map (\<lambda>p. ComputePathkey sha fc p caseins) ps)"
    and "ps \<noteq> []" and "length ps \<le> 4095" and "list_all (\<lambda>p. idx p \<le> NOTEXIST) ps"
    and "Sets sha fc (new_pathmap caseins (Some empty_file)) (map (\<lambda>p. (p, WHITEOUT)) ps) = Inr pm1"
    and "Write mem_ops sha pm1 sync ro1 = (n1, pm2)"
    and "Sets sha fc pm2 (map (\<lambda>p. (p, idx p)) ps) = Inr pm3"
    and "Write mem_ops sha pm3 sync ro2 = (n3, pm4)"
  shows "n1 = 1 \<and> n3 = 1 \<and> \<not> bloated pm3 \<and>
     ofs pm3 = 16 * (int (length ps) + 1) \<and> ofs pm4 = 32 * (int (length ps) + 1) \<and>
     fs pm4 = Some \<lparr>content = whiteout_image sha fc caseins (visit_order sha fc caseins (ro1 0) ps) (DIRT OR WHITEOUT)
                        @ whiteout_image sha fc caseins (visit_order sha fc caseins (ro2 0) ps) NOTEXIST,
        events = EvWrite 0 (whiteout_image sha fc caseins (visit_order sha fc caseins (ro1 0) ps) (DIRT OR WHITEOUT)) # sync_events sync
          @ EvWrite (16 * (int (length ps) + 1)) (whiteout_image sha fc caseins (visit_order sha fc caseins (ro2 0) ps) NOTEXIST)
          # sync_events sync\<rparr>"
proof -
  let ?K = "\<lambda>p. ComputePathkey sha fc p caseins"
  define pm0 :: "memfs Pathmap" where "pm0 = new_pathmap caseins (Some empty_file)"
  define img1 where "img1 = whiteout_image sha fc caseins (visit_order sha fc caseins (ro1 0) ps) (DIRT OR WHITEOUT)"
  define img2 where "img2 = whiteout_image sha fc caseins (visit_order sha fc caseins (ro2 0) ps) NOTEXIST"
  define n where "n = int (length ps)"
  have l1: "length img1 = 16 * (length ps + 1)" "length img2 = 16 * (length ps + 1)"
    by (simp_all add: img1_def img2_def whiteout_image_length visit_order_length)
  \<comment> \<open>the first run of Set\<close>
  have p1: "pm1 = pm0\<lparr>vm := map (\<lambda>p. (?K p, DIRT OR WHITEOUT)) ps, dl := map ?K ps\<rparr>"
    using Sets_whiteouts_gen [of pm0 caseins sha fc "[]" ps] assms(1,5)
    by (simp add: pm0_def new_pathmap_def)
  have f1: "fs pm1 = Some empty_file" "ofs pm1 = 0" "Caseins pm1 = caseins"
    by (simp_all add: p1 pm0_def new_pathmap_def)
  have d1: "distinct (map fst (vm pm1))" "dl pm1 = map fst (vm pm1)"
    using assms(1) by (simp_all add: p1 comp_def)
  define vmo1 where "vmo1 = map (\<lambda>p. (?K p, DIRT OR WHITEOUT)) ps"
  define pm1' where "pm1' = pm1\<lparr>vm := map (\<lambda>p. (?K p, WHITEOUT)) ps, dl := []\<rparr>"
  have b1: "writeBegin pm1 True = (vmo1, pm1')"
    using writeBegin_incr_all [OF d1]
    by (simp add: p1 vmo1_def pm1'_def comp_def doi_whiteout masked_whiteouts)
  have k1: "keys16 vmo1" "vmo1 \<noteq> []"
    using assms(2) by (simp_all add: vmo1_def keys16_def list_all_iff length_ComputePathkey)
  have nb1: "\<not> bloated pm1" by (simp add: bloated_def f1)
  have i1: "[img1] = chunk_images sha 0x31 [] 0x41 (map rec_of (range_order (ro1 0) vmo1))"
    using assms(3)
    by (simp add: chunk_images_single img1_def whiteout_image_def vmo1_def range_order_paths
        visit_order_length comp_def Let_def)
  have w1: "Write mem_ops sha pm1 sync ro1 =
      (1, pm1'\<lparr>fs := Some \<lparr>content = img1, events = EvWrite 0 img1 # sync_events sync\<rparr>,
              ofs := int (length img1)\<rparr>)"
    using Write_incr_mem [where ro = ro1 and sync = sync, OF f1(1) nb1 _ b1 k1 i1]
    by (simp add: f1 empty_file_def pwrite_def)
  with assms(6) have n1: "n1 = 1" and p2: "pm2 = pm1'\<lparr>fs := Some \<lparr>content = img1,
      events = EvWrite 0 img1 # sync_events sync\<rparr>, ofs := int (length img1)\<rparr>"
    by simp_all
  \<comment> \<open>the second run of Set\<close>
  have c2: "Caseins pm2 = caseins" by (simp add: p2 pm1'_def f1)
  have v2: "vm pm2 = map (\<lambda>p. (?K p, DIRT OR idx p)) [] @ map (\<lambda>p. (?K p, WHITEOUT)) ps"
    by (simp add: p2 pm1'_def)
  have dl2: "dl pm2 = map ?K []" by (simp add: p2 pm1'_def)
  have p3: "pm3 = pm2\<lparr>vm := map (\<lambda>p. (?K p, DIRT OR idx p)) ps, dl := map ?K ps\<rparr>"
    using Sets_index_gen [OF c2 v2 dl2 _ assms(4)] assms(1,7) by simp
  have f3: "fs pm3 = Some \<lparr>content = img1, events = EvWrite 0 img1 # sync_events sync\<rparr>"
    "ofs pm3 = int (length img1)" "length (vm pm3) = length ps"
    by (simp_all add: p3 p2 pm1'_def)
  have d3: "distinct (map fst (vm pm3))" "dl pm3 = map fst (vm pm3)"
    using assms(1) by (simp_all add: p3 comp_def)
  define vmo3 where "vmo3 = map (\<lambda>p. (?K p, NOTEXIST)) ps"
  define pm3' where "pm3' = pm3\<lparr>vm := masked (vm pm3), dl := []\<rparr>"
  have "map (\<lambda>kv. (fst kv, delete_or_insert (snd kv))) (vm pm3) = vmo3"
    using assms(4) by (simp add: p3 vmo3_def comp_def list_all_iff doi_index)
  with writeBegin_incr_all [OF d3] have b3: "writeBegin pm3 True = (vmo3, pm3')"
    by (simp add: pm3'_def)
  have k3: "keys16 vmo3" "vmo3 \<noteq> []"
    using assms(2) by (simp_all add: vmo3_def keys16_def list_all_iff length_ComputePathkey)
  from assms(2) have "0 < length ps" by simp
  then have nb3: "\<not> bloated pm3" by (simp add: bloated_def f3 l1)
  have o3: "0 \<le> ofs pm3" by (simp add: f3)
  have i3: "[img2] = chunk_images sha 0x31 [] 0x41 (map rec_of (range_order (ro2 0) vmo3))"
    using assms(3)
    by (simp add: chunk_images_single img2_def whiteout_image_def vmo3_def range_order_paths
        visit_order_length comp_def Let_def)
  have w3: "Write mem_ops sha pm3 sync ro2 =
      (1, pm3'\<lparr>fs := Some \<lparr>content = img1 @ img2,
               events = EvWrite 0 img1 # sync_events sync
                 @ EvWrite (int (length img1)) img2 # sync_events sync\<rparr>,
              ofs := int (length img1) + int (length img2)\<rparr>)"
    using Write_incr_mem [where ro = ro2 and sync = sync, OF f3(1) nb3 o3 b3 k3 i3]
    by (simp add: f3 pwrite_at_end)
  with assms(8) have n3: "n3 = 1" and p4: "pm4 = pm3'\<lparr>fs := Some \<lparr>content = img1 @ img2,
               events = EvWrite 0 img1 # sync_events sync
                 @ EvWrite (int (length img1)) img2 # sync_events sync\<rparr>,
              ofs := int (length img1) + int (length img2)\<rparr>"
    by simp_all
  from n1 n3 nb3 f3(2) p4 l1 show ?thesis
    by (simp add: img1_def img2_def)
qed

lemma Sets_whiteouts_runs:
  assumes "distinct (map (\<lambda>p. ComputePathkey sha fc p (Caseins pm)) ps)" "vm pm = []" "dl pm = []"
  shows "\<exists>pm1. Sets sha fc pm (map (\<lambda>p. (p, WHITEOUT)) ps) = Inr pm1"
  using Sets_whiteouts_gen [of pm "Caseins pm" sha fc "[]" ps] assms by simp

lemma truncations_sync: "truncations (sync_events sync @ es) = truncations es"
  by (simp add: sync_events_def)

lemma whiteouts_then_index_run:
  assumes "distinct (map (\<lambda>p. ComputePathkey sha fc p caseins) ps)"
    and "ps \<noteq> []" and "length ps \<le> 4095" and "list_all (\<lambda>p. idx p \<le> NOTEXIST) ps"
  shows "\<exists>pm3 pm4. whiteouts_then_index sha fc caseins ps idx sync ro1 ro2 = Some (1, pm3, 1, pm4) \<and>
     \<not> bloated pm3 \<and> ofs pm3 = 16 * (int (length ps) + 1) \<and>
     ofs pm4 = 32 * (int (length ps) + 1) \<and>
     fs pm4 = Some \<lparr>content = whiteout_image sha fc caseins (visit_order sha fc caseins (ro1 0) ps) (DIRT OR WHITEOUT)
                        @ whiteout_image sha fc caseins (visit_order sha fc caseins (ro2 0) ps) NOTEXIST,
        events = EvWrite 0 (whiteout_image sha fc caseins (visit_order sha fc caseins (ro1 0) ps) (DIRT OR WHITEOUT)) # sync_events sync
          @ EvWrite (16 * (int (length ps) + 1)) (whiteout_image sha fc caseins (visit_order sha fc caseins (ro2 0) ps) NOTEXIST)
          # sync_events sync\<rparr>"
proof -
  let ?K = "\<lambda>p. ComputePathkey sha fc p caseins"
  define pm0 :: "memfs Pathmap" where "pm0 = new_pathmap caseins (Some empty_file)"
  have p0: "Caseins pm0 = caseins" "vm pm0 = []" "dl pm0 = []"
    by (simp_all add: pm0_def new_pathmap_def)
  obtain pm1 where s1: "Sets sha fc pm0 (map (\<lambda>p. (p, WHITEOUT)) ps) = Inr pm1"
    using Sets_whiteouts_runs [of sha fc pm0 ps] assms(1) p0 by auto
  obtain n1 pm2 where w1: "Write mem_ops sha pm1 sync ro1 = (n1, pm2)"
    by (cases "Write mem_ops sha pm1 sync ro1")
  \<comment> \<open>the state after the first \<^verbatim>\<open>Write\<close>, as in the proof of the lemma above\<close>
  have p1: "pm1 = pm0\<lparr>vm := map (\<lambda>p. (?K p, DIRT OR WHITEOUT)) ps, dl := map ?K ps\<rparr>"
    using Sets_whiteouts_gen [of pm0 caseins sha fc "[]" ps] assms(1) s1 p0 by simp
  have d1: "distinct (map fst (vm pm1))" "dl pm1 = map fst (vm pm1)"
    using assms(1) by (simp_all add: p1 comp_def)
  from writeBegin_incr_all [OF d1]
  have b1: "vm (snd (writeBegin pm1 True)) = map (\<lambda>p. (?K p, WHITEOUT)) ps"
    "dl (snd (writeBegin pm1 True)) = []" "Caseins (snd (writeBegin pm1 True)) = caseins"
    by (simp_all add: p1 masked_whiteouts p0)
  have k1: "keys16 (fst (writeBegin pm1 True))" "fst (writeBegin pm1 True) \<noteq> []"
    using writeBegin_incr_all [OF d1] assms(2)
    by (simp_all add: p1 keys16_def list_all_iff length_ComputePathkey)
  have f1: "fs pm1 = Some empty_file" "\<not> bloated pm1" "0 \<le> ofs pm1"
    by (simp_all add: p1 pm0_def new_pathmap_def bloated_def)
  from Write_incr_mem [where ?pm1.0 = "snd (writeBegin pm1 True)" and sha = sha and sync = sync
      and ro = ro1, OF f1 _ k1 refl] w1
  have v2: "vm pm2 = map (\<lambda>p. (?K p, DIRT OR idx p)) [] @ map (\<lambda>p. (?K p, WHITEOUT)) ps"
    and dl2: "dl pm2 = map ?K []" and c2: "Caseins pm2 = caseins"
    using b1 by auto
  obtain pm3 where s2: "Sets sha fc pm2 (map (\<lambda>p. (p, idx p)) ps) = Inr pm3"
    using Sets_index_gen [OF c2 v2 dl2 _ assms(4)] assms(1) by simp
  obtain n3 pm4 where w3: "Write mem_ops sha pm3 sync ro2 = (n3, pm4)"
    by (cases "Write mem_ops sha pm3 sync ro2")
  note r = whiteouts_back_to_index [OF assms s1 [unfolded pm0_def] w1 s2 w3]
  from s1 w1 s2 w3 have "whiteouts_then_index sha fc caseins ps idx sync ro1 ro2 = Some (n1, pm3, n3, pm4)"
    by (simp add: whiteouts_then_index_def pm0_def)
  with r show ?thesis by simp
qed

lemma demo_key_bytes:
  "demo_key i ! 2 = word_of_nat (i mod 256)" "demo_key i ! 3 = word_of_nat (i div 256 mod 256)"
proof -
  have a: "(word_of_nat (of_char (char_of (i mod 256) :: char) :: nat) :: byte) = word_of_nat (i mod 256)"
    by (simp add: of_char_of)
  have b: "(word_of_nat (of_char (char_of (i div 256) :: char) :: nat) :: byte) = word_of_nat (i div 256 mod 256)"
    by (simp add: of_char_of)
  show "demo_key i ! 2 = word_of_nat (i mod 256)"
    using a by (simp add: demo_key_def demo_path_def ComputePathkey_def pathkey_of_digest_def
        Sum256_def idsum_def bytes_of_def fold_case_def nth_append)
  show "demo_key i ! 3 = word_of_nat (i div 256 mod 256)"
    using b by (simp add: demo_key_def demo_path_def ComputePathkey_def pathkey_of_digest_def
        Sum256_def idsum_def bytes_of_def fold_case_def nth_append)
qed

lemma byte_of_nat_inj: "a < 256 \<Longrightarrow> b < 256 \<Longrightarrow> (word_of_nat a :: byte) = word_of_nat b \<Longrightarrow> a = b"
proof -
  assume a: "a < 256" and b: "b < 256" and e: "(word_of_nat a :: byte) = word_of_nat b"
  from e have "unat (word_of_nat a :: byte) = unat (word_of_nat b :: byte)" by simp
  with a b show "a = b" by (simp add: unat_of_nat)
qed

lemma demo_key_inj:
  assumes "i < 65536" "j < 65536" "demo_key i = demo_key j"
  shows "i = j"
proof -
  from assms(3) demo_key_bytes [of i] demo_key_bytes [of j]
  have "(word_of_nat (i mod 256) :: byte) = word_of_nat (j mod 256)"
    "(word_of_nat (i div 256 mod 256) :: byte) = word_of_nat (j div 256 mod 256)" by simp_all
  then have "i mod 256 = j mod 256" "i div 256 mod 256 = j div 256 mod 256"
    by (auto intro: byte_of_nat_inj)
  moreover from assms(1,2) have "i div 256 mod 256 = i div 256" "j div 256 mod 256 = j div 256"
    by simp_all
  ultimately have "i mod 256 = j mod 256" "i div 256 = j div 256" by simp_all
  then show "i = j" by (metis div_mult_mod_eq)
qed

lemma distinct_demo_keys: "n \<le> 65536 \<Longrightarrow> distinct (map demo_key [0..<n])"
  by (auto simp: distinct_map intro!: inj_onI demo_key_inj)

section \<open>Replay of what was written\<close>

lemma pathmapRead_block:
  assumes "16 \<le> length (rbytes rdr)"
  shows "pathmapRead rdr 1 = (1, take 1 (rbytes rdr), advance rdr 1)"
    and "pathmapRead (advance rdr 1) 15 = (15, take 15 (drop 1 (rbytes rdr)), advance rdr 16)"
  using assms by (auto simp: pathmapRead_def advance_def)

lemma take_1_15: "16 \<le> length xs \<Longrightarrow> take 1 xs @ take 15 (drop 1 xs) = take 16 xs"
proof -
  have "take 1 xs @ take 15 (drop 1 xs) = take (1 + 15) xs" by (simp only: take_add)
  then show ?thesis by simp
qed

lemma hd_take_1: "16 \<le> length xs \<Longrightarrow> hd (take 1 xs) = take 16 xs ! 0"
  by (cases xs) simp_all

lemma rt_records_block:
  assumes "cnt > idx" "16 \<le> length (rbytes rdr)"
  shows "rt_records pm st cnt idx rdr =
     (if 0 = take 16 (rbytes rdr) ! 0 AND DIRT then (None, idx, pm, st, rdr)
      else rt_records (pm\<lparr>ofs := ofs pm + 16\<rparr>)
             (st\<lparr>hsh := hsh st @ take 16 (rbytes rdr),
                 tmp := upd_record (take 16 (rbytes rdr)) (tmp st)\<rparr>)
             cnt (idx + 1) (advance rdr 16))"
proof (cases "0 = take 16 (rbytes rdr) ! 0 AND DIRT")
  case True
  with assms pathmapRead_block [OF assms(2)] hd_take_1 [OF assms(2)] show ?thesis
    by (subst rt_records.simps) simp
next
  case False
  note b = pathmapRead_block [OF assms(2)]
  from False hd_take_1 [OF assms(2)] have d: "0 \<noteq> hd (take 1 (rbytes rdr)) AND DIRT" by simp
  have "hd (take 16 (rbytes rdr)) = take 16 (rbytes rdr) ! 0"
    using assms(2) by (cases "rbytes rdr") simp_all
  with rt_records_step [OF assms(1) b(1) _ d b(2), of pm st] False take_1_15 [OF assms(2)]
  show ?thesis by (simp add: upd_record_def)
qed

lemma header_ok_not_unread: "chunk_header_ok c1 k \<Longrightarrow> \<not> (c1 \<and> 0x31 = k ! 0)"
  by (auto simp: chunk_header_ok_def)



lemma rt_chunks_block_chunk:
  assumes "16 \<le> length (rbytes rdr)" "k = take 16 (rbytes rdr)" "chunk_header_ok (ch1 st) k"
    and "rt_records (pm\<lparr>ofs := ofs pm + 16\<rparr>) (st\<lparr>ch1 := True\<rparr>) (Uint16 (drop 2 k)) 0
           (advance rdr 16) = (r, idx, pm2, st2, rdr3)"
  shows "rt_chunks sha pm st rdr =
     (case r of
        Some n \<Rightarrow> (n, pm2, rdr3)
      | None \<Rightarrow>
          let equ1 = (equ st2 \<and> (Uint16 (drop 2 k) = idx
                \<and> take 12 (drop 4 k) = take 12 (Sum256 sha (hsh st2))))
          in
            if 0x53 = k ! 1 \<or> 0x41 = k ! 1 then
              (if equ1 then
                 (1, pm2\<lparr>vm := fold apply_record (tmp st2)
                        (if 0x53 = k ! 1 then [] else vm pm2)\<rparr>, rdr3)
               else (1, pm2, rdr3))
            else rt_chunks sha pm2 (st2\<lparr>equ := equ1\<rparr>) rdr3)"
proof -
  note b = pathmapRead_block [OF assms(1)]
  note t = take_1_15 [OF assms(1)]
  from header_ok_not_unread [OF assms(3)] hd_take_1 [OF assms(1)] assms(2)
  have nu: "\<not> (ch1 st \<and> 0x31 = hd (take 1 (rbytes rdr)))" by simp
  from assms(3) t assms(2)
  have o: "chunk_header_ok (ch1 st) (take 1 (rbytes rdr) @ take 15 (drop 1 (rbytes rdr)))"
    by simp
  from assms(4) t assms(2)
  have rr: "rt_records (pm\<lparr>ofs := ofs pm + 16\<rparr>) (st\<lparr>ch1 := True\<rparr>)
      (Uint16 (drop 2 (take 1 (rbytes rdr) @ take 15 (drop 1 (rbytes rdr))))) 0 (advance rdr 16)
      = (r, idx, pm2, st2, rdr3)"
    by simp
  have p: "0 < (1::int)" "0 < (15::int)" by simp_all
  note c = rt_chunks_chunk [OF b(1) p(1) nu b(2) p(2) o rr, of sha, unfolded t]
  show ?thesis unfolding assms(2) by (rule c)
qed

lemma rt_records_done: "rt_records pm st cnt cnt rdr = (None, cnt, pm, st, rdr)"
  by (subst rt_records.simps) simp

lemma rt_records_image:
  assumes "records16 rs" "framed rs" "rbytes rdr = concat rs @ rest"
    "cnt = idx + int (length rs)"
  shows "rt_records pm st cnt idx rdr =
     (None, cnt, pm\<lparr>ofs := ofs pm + 16 * int (length rs)\<rparr>,
      st\<lparr>hsh := hsh st @ concat rs, tmp := fold upd_record rs (tmp st)\<rparr>,
      rdr\<lparr>rbytes := rest\<rparr>)"
  using assms
proof (induction rs arbitrary: pm st idx rdr)
  case Nil
  then show ?case by (simp add: rt_records_done)
next
  case (Cons r rs)
  from Cons.prems(1) have l: "length r = 16" "records16 rs" by (simp_all add: records16_def)
  from Cons.prems(2) have f: "hd r AND DIRT \<noteq> 0" "framed rs" by (simp_all add: framed_def)
  from l(1) have rn: "r \<noteq> []" by auto
  from Cons.prems(3) l(1) have b: "16 \<le> length (rbytes rdr)" "take 16 (rbytes rdr) = r"
    "rbytes (advance rdr 16) = concat rs @ rest"
    by (simp_all add: advance_def)
  from rn have h: "r ! 0 = hd r" by (cases r) simp_all
  from Cons.prems(4) have c: "cnt > idx" "cnt = (idx + 1) + int (length rs)" by simp_all
  define pm1 where "pm1 = pm\<lparr>ofs := ofs pm + 16\<rparr>"
  define st1 where "st1 = st\<lparr>hsh := hsh st @ r, tmp := upd_record r (tmp st)\<rparr>"
  from rt_records_block [OF c(1) b(1), of pm st] b(2) h f(1)
  have "rt_records pm st cnt idx rdr = rt_records pm1 st1 cnt (idx + 1) (advance rdr 16)"
    by (simp add: pm1_def st1_def)
  also note Cons.IH [OF l(2) f(2) b(3) c(2), of pm1 st1]
  finally show ?case by (simp add: pm1_def st1_def advance_def)
qed

lemma chunk_hdr_read:
  "0 \<le> n \<Longrightarrow> n < 65536 \<Longrightarrow> Uint16 (drop 2 (chunk_hdr sha c cmd n h)) = n"
  "take 12 (drop 4 (chunk_hdr sha c cmd n h)) = take 12 (Sum256 sha h)"
  using chunk_hdr_fields(4) [of sha c cmd n h "[]"] chunk_hdr_fields(5) [of sha c cmd n h "[]"]
    Uint16_PutUint16 [of n "take 12 (Sum256 sha h)"]
  by simp_all

lemma chunk_header_ok_hdr:
  "is_cmd cmd \<Longrightarrow> chunk_header_ok c1 (chunk_hdr sha (if c1 then 0x30 else 0x31) cmd n h)"
  by (simp add: chunk_header_ok_def chunk_hdr_def)

text \<open>One chunk at the head of the reader, with its header and its records.\<close>

lemma rt_chunks_one:
  assumes "records16 rs" "framed rs" "length rs \<le> 4095" "is_cmd cmd"
    and "rbytes rdr = (chunk_hdr sha (if ch1 st then 0x30 else 0x31) cmd (int (length rs))
            (hsh st @ concat rs) @ concat rs) @ rest"
  shows "rt_chunks sha pm st rdr =
     (if 0x53 = cmd \<or> 0x41 = cmd then
        (if equ st then
           (1, pm\<lparr>ofs := ofs pm + 16 * (int (length rs) + 1),
                  vm := fold apply_record (fold upd_record rs (tmp st))
                          (if 0x53 = cmd then [] else vm pm)\<rparr>, rdr\<lparr>rbytes := rest\<rparr>)
         else (1, pm\<lparr>ofs := ofs pm + 16 * (int (length rs) + 1)\<rparr>, rdr\<lparr>rbytes := rest\<rparr>))
      else rt_chunks sha (pm\<lparr>ofs := ofs pm + 16 * (int (length rs) + 1)\<rparr>)
             (st\<lparr>hsh := hsh st @ concat rs, tmp := fold upd_record rs (tmp st), ch1 := True\<rparr>)
             (rdr\<lparr>rbytes := rest\<rparr>))"
proof -
  define hdr where "hdr = chunk_hdr sha (if ch1 st then 0x30 else 0x31) cmd (int (length rs))
            (hsh st @ concat rs)"
  have lh: "length hdr = 16" by (simp add: hdr_def length_chunk_hdr)
  from assms(5) lh have b: "16 \<le> length (rbytes rdr)" "hdr = take 16 (rbytes rdr)"
    "rbytes (advance rdr 16) = concat rs @ rest"
    by (simp_all add: hdr_def [symmetric] advance_def)
  have ok: "chunk_header_ok (ch1 st) hdr"
    unfolding hdr_def by (rule chunk_header_ok_hdr [OF assms(4)])
  from assms(3) have n: "0 \<le> int (length rs)" "int (length rs) < 65536" by simp_all
  have u: "Uint16 (drop 2 hdr) = int (length rs)"
    "take 12 (drop 4 hdr) = take 12 (Sum256 sha (hsh st @ concat rs))"
    unfolding hdr_def using chunk_hdr_read(1) [OF n] chunk_hdr_read(2) by simp_all
  have c: "hdr ! 1 = cmd" by (simp add: hdr_def chunk_hdr_fields)
  define pm1 where "pm1 = pm\<lparr>ofs := ofs pm + 16\<rparr>"
  define st1 where "st1 = st\<lparr>ch1 := True\<rparr>"
  define pm2 where "pm2 = pm1\<lparr>ofs := ofs pm1 + 16 * int (length rs)\<rparr>"
  define st2 where "st2 = st1\<lparr>hsh := hsh st1 @ concat rs, tmp := fold upd_record rs (tmp st1)\<rparr>"
  have rr: "rt_records pm1 st1 (Uint16 (drop 2 hdr)) 0 (advance rdr 16) =
      (None, int (length rs), pm2, st2, (advance rdr 16)\<lparr>rbytes := rest\<rparr>)"
    unfolding u(1) pm2_def st2_def
    by (rule rt_records_image [OF assms(1,2) b(3)]) simp
  have e: "equ st2 = equ st" "hsh st2 = hsh st @ concat rs" "vm pm2 = vm pm"
    "(advance rdr 16)\<lparr>rbytes := rest\<rparr> = rdr\<lparr>rbytes := rest\<rparr>"
    "pm2 = pm\<lparr>ofs := ofs pm + 16 * (int (length rs) + 1)\<rparr>"
    "st2\<lparr>equ := equ st\<rparr> = st\<lparr>hsh := hsh st @ concat rs, tmp := fold upd_record rs (tmp st), ch1 := True\<rparr>"
    "tmp st2 = fold upd_record rs (tmp st)"
    by (simp_all add: st2_def st1_def pm2_def pm1_def advance_def)
  note k = rt_chunks_block_chunk [OF b(1,2) ok rr [unfolded pm1_def st1_def], of sha]
  show ?thesis
    unfolding k by (simp add: Let_def u c e del: One_nat_def)
qed

lemma records16_take_drop:
  "records16 rs \<Longrightarrow> records16 (take n rs)" "records16 rs \<Longrightarrow> records16 (drop n rs)"
  using records16_append [of "take n rs" "drop n rs"] by simp_all

lemma framed_take_drop:
  "framed rs \<Longrightarrow> framed (take n rs)" "framed rs \<Longrightarrow> framed (drop n rs)"
proof -
  have "framed (take n rs @ drop n rs) = (framed (take n rs) \<and> framed (drop n rs))"
    unfolding framed_def by (rule list_all_append)
  then show "framed rs \<Longrightarrow> framed (take n rs)" "framed rs \<Longrightarrow> framed (drop n rs)" by simp_all
qed

lemma rt_chunks_images:
  assumes "records16 rs" "framed rs" "cmd = 0x41 \<or> cmd = 0x53" "equ st"
    and "rbytes rdr = concat (chunk_images sha (if ch1 st then 0x30 else 0x31) (hsh st) cmd rs) @ rest"
  shows "rt_chunks sha pm st rdr =
     (1,
      pm\<lparr>ofs := ofs pm + int (length (concat
               (chunk_images sha (if ch1 st then 0x30 else 0x31) (hsh st) cmd rs))),
         vm := fold apply_record (fold upd_record rs (tmp st)) (if 0x53 = cmd then [] else vm pm)\<rparr>,
      rdr\<lparr>rbytes := rest\<rparr>)"
  using assms
proof (induction "length rs" arbitrary: rs pm st rdr rule: less_induct)
  case less
  from less.prems(3) have ic: "is_cmd cmd" "0x53 = cmd \<or> 0x41 = cmd" by (auto simp: is_cmd_def)
  show ?case
  proof (cases "length rs \<le> 4095")
    case True
    note s = chunk_images_single [OF True, of sha "if ch1 st then 0x30 else 0x31" "hsh st" cmd]
    from less.prems(5) have b: "rbytes rdr =
        (chunk_hdr sha (if ch1 st then 0x30 else 0x31) cmd (int (length rs)) (hsh st @ concat rs)
           @ concat rs) @ rest"
      unfolding s by simp
    have l: "int (length (concat (chunk_images sha (if ch1 st then 0x30 else 0x31) (hsh st) cmd rs)))
        = 16 * (int (length rs) + 1)"
      using chunk_images_one_length [OF less.prems(1) True, of sha "if ch1 st then 0x30 else 0x31" "hsh st" cmd]
      by simp
    show ?thesis
      unfolding l rt_chunks_one [OF less.prems(1,2) True ic(1) b, of pm]
      using ic(2) less.prems(4) by simp
  next
    case False
    define p where "p = take 4095 rs"
    define q where "q = drop 4095 rs"
    from False have pq: "rs = p @ q" "length p = 4095" "q \<noteq> []" "length q < length rs"
      by (simp_all add: p_def q_def)
    have rp: "records16 p" "framed p" "records16 q" "framed q"
      using less.prems(1,2) by (simp_all add: p_def q_def records16_take_drop framed_take_drop)
    define tl_imgs where "tl_imgs = chunk_images sha 0x30 (hsh st @ concat p) cmd q"
    have sp: "chunk_images sha (if ch1 st then 0x30 else 0x31) (hsh st) cmd rs =
        (chunk_hdr sha (if ch1 st then 0x30 else 0x31) 0x50 4095 (hsh st @ concat p) @ concat p) # tl_imgs"
      unfolding pq(1) tl_imgs_def by (rule chunk_images_split [OF pq(2,3)])
    have b: "rbytes rdr =
        (chunk_hdr sha (if ch1 st then 0x30 else 0x31) 0x50 (int (length p)) (hsh st @ concat p)
           @ concat p) @ (concat tl_imgs @ rest)"
      using less.prems(5) unfolding sp by (simp add: pq(2))
    have lp: "length p \<le> 4095" by (simp add: pq(2))
    have icp: "is_cmd 0x50" by (simp add: is_cmd_def)
    define pm1 where "pm1 = pm\<lparr>ofs := ofs pm + 16 * (int (length p) + 1)\<rparr>"
    define st1 where "st1 = st\<lparr>hsh := hsh st @ concat p, tmp := fold upd_record p (tmp st), ch1 := True\<rparr>"
    define rdr1 where "rdr1 = rdr\<lparr>rbytes := concat tl_imgs @ rest\<rparr>"
    have step: "rt_chunks sha pm st rdr = rt_chunks sha pm1 st1 rdr1"
      unfolding rt_chunks_one [OF rp(1,2) lp icp b, of pm] pm1_def st1_def rdr1_def by simp
    have e1: "equ st1" using less.prems(4) by (simp add: st1_def)
    have b1: "rbytes rdr1 =
        concat (chunk_images sha (if ch1 st1 then 0x30 else 0x31) (hsh st1) cmd q) @ rest"
      by (simp add: rdr1_def st1_def tl_imgs_def)
    note ih = less.hyps [OF pq(4) rp(3,4) less.prems(3) e1 b1, of pm1]
    have t: "fold upd_record q (tmp st1) = fold upd_record rs (tmp st)"
      by (simp add: st1_def pq(1))
    have l: "length (concat (chunk_images sha (if ch1 st then 0x30 else 0x31) (hsh st) cmd rs))
        = 16 * (length p + 1) + length (concat tl_imgs)"
      unfolding sp using length_concat16 [OF rp(1)] by (simp add: length_chunk_hdr)
    have l1: "chunk_images sha (if ch1 st1 then 0x30 else 0x31) (hsh st1) cmd q = tl_imgs"
      by (simp add: st1_def tl_imgs_def)
    show ?thesis
      unfolding step ih t l l1 by (simp add: pm1_def rdr1_def)
  qed
qed

lemma read_eof:
  assumes "rbytes rdr = []" "rlast rdr = 0"
  shows "read sha pm rdr = (1, pm)"
proof -
  from assms have "pathmapRead rdr 1 = (0, [], rdr)" by (simp add: pathmapRead_def)
  from rt_chunks_eof [OF this, of sha pm] show ?thesis
    by (subst read.simps) (simp add: readTransaction_def)
qed

lemma read_images:
  assumes "records16 rs" "framed rs" "cmd = 0x41 \<or> cmd = 0x53"
    and "rbytes rdr = concat (chunk_images sha 0x31 [] cmd rs)" "rlast rdr = 0"
  shows "read sha pm rdr =
     (1,
      pm\<lparr>ofs := ofs pm + int (length (concat (chunk_images sha 0x31 [] cmd rs))),
         vm := fold apply_record (fold upd_record rs []) (if 0x53 = cmd then [] else vm pm)\<rparr>)"
proof -
  define st0 where "st0 = \<lparr>tmp = [], hsh = [], ch1 = False, equ = True\<rparr>"
  have e: "equ st0" by (simp add: st0_def)
  have b: "rbytes rdr = concat (chunk_images sha (if ch1 st0 then 0x30 else 0x31) (hsh st0) cmd rs) @ []"
    using assms(4) by (simp add: st0_def)
  note r = rt_chunks_images [OF assms(1,2,3) e b, of pm]
  have s: "(if ch1 st0 then 0x30 else 0x31) = (0x31::byte)" "hsh st0 = []" "tmp st0 = []"
    by (simp_all add: st0_def)
  have "read sha pm rdr = read sha
      (pm\<lparr>ofs := ofs pm + int (length (concat (chunk_images sha 0x31 [] cmd rs))),
         vm := fold apply_record (fold upd_record rs []) (if 0x53 = cmd then [] else vm pm)\<rparr>)
      (rdr\<lparr>rbytes := []\<rparr>)"
    using r unfolding s by (subst read.simps) (simp add: readTransaction_def st0_def)
  also have "\<dots> = (1, pm\<lparr>ofs := ofs pm + int (length (concat (chunk_images sha 0x31 [] cmd rs))),
         vm := fold apply_record (fold upd_record rs []) (if 0x53 = cmd then [] else vm pm)\<rparr>)"
    by (rule read_eof) (simp_all add: assms(5))
  finally show ?thesis .
qed





section \<open>Set, Write and reload\<close>

lemma maxvis_clean: "v \<le> MAXVIS \<Longrightarrow> v AND DIRT = 0"
  using le_mask_clean [OF maxvis_le_mask] .

lemma dirt_neq_0: "DIRT \<noteq> 0"
  by (simp add: DIRT_def)

lemma or_and_dirt: "v AND DIRT = 0 \<Longrightarrow> (d OR v) AND DIRT = d AND DIRT"
  by (simp add: bit.conj_disj_distrib2)

lemma dirt_and_dirt: "DIRT AND DIRT = DIRT"
  by simp

lemma durable_dirt_or: "durable (DIRT OR v) = durable v"
  by (simp add: durable_def dirt_or_mask)

lemma durable_above: "v \<le> MAXVIS \<Longrightarrow> durable v \<Longrightarrow> \<not> MAXIDX \<ge> v AND MASK"
proof -
  assume v: "v \<le> MAXVIS" and d: "durable v"
  from d have "v AND MASK = 0x7d \<or> v AND MASK = 0x7e" by (simp add: durable_def vis_defs)
  then show ?thesis by (auto simp: vis_defs)
qed

text \<open>What the common setter does, by the cases of the dirty bit it computes.\<close>

lemma pm_set_cases:
  assumes "v \<le> MAXVIS"
  shows "\<exists>d. (d = 0 \<or> d = DIRT) \<and>
     vm (pm_set pm k u v) = AList.update k (d OR v) (vm pm) \<and>
     dl (pm_set pm k u v) = (if u AND DIRT = 0 \<and> d = DIRT then dl pm @ [k] else dl pm) \<and>
     (u AND DIRT \<noteq> 0 \<longrightarrow> d = DIRT) \<and>
     (\<not> durable u \<and> durable v \<longrightarrow> d = DIRT)"
proof (cases "u AND DIRT = 0")
  case False
  with and_dirt_cases [of u] have u: "u AND DIRT = DIRT" by simp
  with False show ?thesis by (intro exI [of _ DIRT]) (simp add: pm_set_def Let_def)
next
  case True
  let ?uk = "if MAXIDX \<ge> u AND MASK then UNKNOWN else u AND MASK"
  let ?vk = "if MAXIDX \<ge> v AND MASK then UNKNOWN else v AND MASK"
  show ?thesis
  proof (cases "?uk \<noteq> ?vk")
    case d: True
    with True dirt_neq_0 show ?thesis
      by (intro exI [of _ DIRT]) (simp add: pm_set_def Let_def)
  next
    case d: False
    have nd: "\<not> (\<not> durable u \<and> durable v)"
    proof
      assume a: "\<not> durable u \<and> durable v"
      with durable_above [OF assms] have vk: "?vk = v AND MASK" by simp
      from a have dv: "v AND MASK = WHITEOUT \<or> v AND MASK = OPAQUE" by (simp add: durable_def)
      from a have du: "u AND MASK \<noteq> WHITEOUT" "u AND MASK \<noteq> OPAQUE" by (simp_all add: durable_def)
      have "?uk \<noteq> v AND MASK"
      proof (cases "MAXIDX \<ge> u AND MASK")
        case True
        with dv show ?thesis by (auto simp: vis_defs)
      next
        case False
        with dv du show ?thesis by auto
      qed
      with d vk show False by simp
    qed
    from True d nd dirt_neq_0 show ?thesis
      by (intro exI [of _ 0]) (simp add: pm_set_def Let_def)
  qed
qed

lemma pm_set_frame:
  "Caseins (pm_set pm k u v) = Caseins pm" "fs (pm_set pm k u v) = fs pm"
  "ofs (pm_set pm k u v) = ofs pm"
  by (simp_all add: pm_set_def Let_def)

lemma hd_ComputePathkey: "hd (ComputePathkey sha fc path caseins) = 0"
  by (simp add: ComputePathkey_def pathkey_of_digest_def)

lemma map_of_update_eq:
  "map_of (AList.update k v m) k' = (if k' = k then Some v else map_of m k')"
  by (simp add: update_conv')

lemma Set_inv:
  assumes "set_inv pm" "Set sha fc pm path v = Inr pm'"
  shows "set_inv pm' \<and> Caseins pm' = Caseins pm \<and> fs pm' = fs pm \<and> ofs pm' = ofs pm"
proof -
  let ?k = "ComputePathkey sha fc path (Caseins pm)"
  from assms(2) have v: "v \<le> MAXVIS" by (auto simp: Set_def split: if_splits)
  obtain u0 ok where l: "lookup (vm pm) ?k = (u0, ok)" by (cases "lookup (vm pm) ?k")
  define u where "u = (if \<not> ok then UNKNOWN else u0)"
  from v have nv: "\<not> MAXVIS < v" by (simp add: not_less)
  from assms(2) nv l have p: "pm' = pm_set pm ?k u v" by (simp add: Set_def Let_def u_def)
  from pm_set_cases [OF v, of pm ?k u] obtain d where
    d: "d = 0 \<or> d = DIRT" "vm pm' = AList.update ?k (d OR v) (vm pm)"
      "dl pm' = (if u AND DIRT = 0 \<and> d = DIRT then dl pm @ [?k] else dl pm)"
      "u AND DIRT \<noteq> 0 \<longrightarrow> d = DIRT" "\<not> durable u \<and> durable v \<longrightarrow> d = DIRT"
    unfolding p by blast
  from assms(1) have i: "distinct (map fst (vm pm))" "distinct (dl pm)"
    "\<And>k. k \<in> set (dl pm) \<longleftrightarrow> (\<exists>v. map_of (vm pm) k = Some v \<and> v AND DIRT \<noteq> 0)"
    "\<And>k v. map_of (vm pm) k = Some v \<Longrightarrow> durable v \<Longrightarrow> v AND DIRT \<noteq> 0"
    "\<And>k. k \<in> set (dl pm) \<Longrightarrow> length k = 16 \<and> hd k = 0"
    by (auto simp: set_inv_def)
  note vc = maxvis_clean [OF v]
  have cd: "(d OR v) AND DIRT \<noteq> 0 \<longleftrightarrow> d = DIRT"
    using d(1) or_and_dirt [OF vc, of d] dirt_neq_0 by auto
  have dd: "durable (d OR v) = durable v"
    using d(1) durable_dirt_or [of v] by auto
  \<comment> \<open>the old cell of the key\<close>
  have uk: "u AND DIRT \<noteq> 0 \<longleftrightarrow> ?k \<in> set (dl pm)"
  proof (cases ok)
    case True
    with l have "map_of (vm pm) ?k = Some u0" by (auto simp: lookup_def split: option.splits)
    with True i(3) [of ?k] show ?thesis by (simp add: u_def)
  next
    case False
    with l have "map_of (vm pm) ?k = None" by (auto simp: lookup_def split: option.splits)
    with False i(3) [of ?k] show ?thesis by (simp add: u_def vis_defs)
  qed
  have ud: "durable u \<Longrightarrow> u AND DIRT \<noteq> 0"
  proof (cases ok)
    case True
    with l have "map_of (vm pm) ?k = Some u0" by (auto simp: lookup_def split: option.splits)
    with True i(4) [of ?k u0] show "durable u \<Longrightarrow> u AND DIRT \<noteq> 0" by (simp add: u_def)
  next
    case False
    then have "\<not> durable u" by (simp add: u_def durable_def vis_defs)
    then show "durable u \<Longrightarrow> u AND DIRT \<noteq> 0" by simp
  qed
  have a1: "distinct (map fst (vm pm'))" using i(1) by (simp add: d(2) distinct_update)
  have a2: "distinct (dl pm')" using i(2) uk by (auto simp: d(3))
  have a3: "k \<in> set (dl pm') \<longleftrightarrow> (\<exists>x. map_of (vm pm') k = Some x \<and> x AND DIRT \<noteq> 0)" for k
  proof (cases "k = ?k")
    case True
    have "?k \<in> set (dl pm') \<longleftrightarrow> d = DIRT"
      using uk d(4) by (auto simp: d(3))
    with True cd show ?thesis by (simp add: d(2) map_of_update_eq)
  next
    case False
    then have "k \<in> set (dl pm') \<longleftrightarrow> k \<in> set (dl pm)" by (auto simp: d(3))
    with False i(3) [of k] show ?thesis by (simp add: d(2) map_of_update_eq)
  qed
  have a4: "x AND DIRT \<noteq> 0" if "map_of (vm pm') k = Some x" "durable x" for k x
  proof (cases "k = ?k")
    case True
    with that have x: "x = d OR v" "durable v" by (simp_all add: d(2) map_of_update_eq dd [symmetric])
    have "d = DIRT"
    proof (cases "durable u")
      case True
      from ud [OF this] d(4) show ?thesis by simp
    next
      case False
      with x(2) d(5) show ?thesis by simp
    qed
    with x(1) cd show ?thesis by simp
  next
    case False
    with that i(4) [of k x] show ?thesis by (simp add: d(2) map_of_update_eq)
  qed
  have a5: "length k = 16 \<and> hd k = 0" if "k \<in> set (dl pm')" for k
    using that i(5) [of k] by (auto simp: d(3) length_ComputePathkey hd_ComputePathkey split: if_splits)
  from a1 a2 a3 a4 a5 have "set_inv pm'" unfolding set_inv_def by blast
  with p show ?thesis by (simp add: pm_set_frame)
qed

lemma Sets_inv:
  "set_inv pm \<Longrightarrow> Sets sha fc pm ops = Inr pm' \<Longrightarrow>
     set_inv pm' \<and> Caseins pm' = Caseins pm \<and> fs pm' = fs pm \<and> ofs pm' = ofs pm"
proof (induction ops arbitrary: pm)
  case Nil
  then show ?case by simp
next
  case (Cons a ops)
  obtain path v where a: "a = (path, v)" by (cases a)
  from Cons.prems(2) a obtain pm1 where
    s: "Set sha fc pm path v = Inr pm1" "Sets sha fc pm1 ops = Inr pm'"
    by (auto split: sum.splits)
  from Set_inv [OF Cons.prems(1) s(1)] Cons.IH [OF _ s(2)] show ?case by simp
qed

lemma Sets_runs:
  "list_all (\<lambda>pv. snd pv \<le> MAXVIS) ops \<Longrightarrow> \<exists>pm'. Sets sha fc pm ops = Inr pm'"
proof (induction ops arbitrary: pm)
  case Nil
  show ?case by simp
next
  case (Cons a ops)
  obtain path v where a: "a = (path, v)" by (cases a)
  with Cons.prems have v: "v \<le> MAXVIS" "list_all (\<lambda>pv. snd pv \<le> MAXVIS) ops" by simp_all
  from Set_TryGet [OF v(1), of sha fc pm path] obtain pm1 where
    "Set sha fc pm path v = Inr pm1" by blast
  with Cons.IH [OF v(2), of pm1] a show ?case by simp
qed

lemma set_inv_new: "set_inv (new_pathmap caseins f)"
  by (simp add: set_inv_def new_pathmap_def)

lemma lookup_update_other: "k' \<noteq> k \<Longrightarrow> lookup (AList.update k v m) k' = lookup m k'"
  by (simp add: lookup_def update_conv')

lemma writeBegin_incr_fst:
  "distinct ks \<Longrightarrow> set ks \<inter> fst ` set vmo = {} \<Longrightarrow>
     fst (fold writeBegin_incr ks (vmo, m)) =
       vmo @ map (\<lambda>k. (k, delete_or_insert (fst (lookup m k)))) ks"
proof (induction ks arbitrary: vmo m)
  case Nil
  show ?case by simp
next
  case (Cons k ks)
  define x where "x = delete_or_insert (fst (lookup m k))"
  define m1 where "m1 = AList.update k (fst (lookup m k) AND MASK) m"
  from Cons.prems have k: "k \<notin> fst ` set vmo" "k \<notin> set ks" "distinct ks" by auto
  from Cons.prems have e: "set ks \<inter> fst ` set (vmo @ [(k, x)]) = {}" by auto
  have s: "writeBegin_incr k (vmo, m) = (vmo @ [(k, x)], m1)"
    using update_notin [OF k(1)]
    by (simp add: writeBegin_incr_def x_def m1_def delete_or_insert_def case_prod_beta)
  have c: "map (\<lambda>k. (k, delete_or_insert (fst (lookup m1 k)))) ks =
      map (\<lambda>k. (k, delete_or_insert (fst (lookup m k)))) ks"
  proof (intro map_cong refl)
    fix y assume "y \<in> set ks"
    with k(2) have "y \<noteq> k" by auto
    then show "(y, delete_or_insert (fst (lookup m1 y))) = (y, delete_or_insert (fst (lookup m y)))"
      by (simp add: m1_def lookup_update_other)
  qed
  from Cons.IH [OF k(3) e, of m1] s c show ?case by (simp add: x_def)
qed

lemma writeBegin_incr_vmo:
  "distinct (dl pm) \<Longrightarrow>
     fst (writeBegin pm True) = map (\<lambda>k. (k, delete_or_insert (fst (lookup (vm pm) k)))) (dl pm)"
  using writeBegin_incr_fst [of "dl pm" "[]" "vm pm"]
  by (simp add: writeBegin_def case_prod_beta)

lemma upd_record_rec_of:
  "k \<noteq> [] \<Longrightarrow> hd k = 0 \<Longrightarrow> upd_record (rec_of (k, v)) t = AList.update k (v AND MASK) t"
  by (cases k) (simp_all add: upd_record_def rec_of_def dirt_or_mask)

lemma map_of_fold_upd:
  "distinct (map fst xs) \<Longrightarrow> list_all (\<lambda>kv. fst kv \<noteq> [] \<and> hd (fst kv) = 0) xs \<Longrightarrow>
     map_of (fold upd_record (map rec_of xs) t) k =
       (case map_of xs k of Some v \<Rightarrow> Some (v AND MASK) | None \<Rightarrow> map_of t k)"
proof (induction xs arbitrary: t)
  case Nil
  show ?case by simp
next
  case (Cons x xs)
  obtain k0 v0 where x: "x = (k0, v0)" by (cases x)
  from Cons.prems x have p: "k0 \<notin> fst ` set xs" "distinct (map fst xs)" "k0 \<noteq> []" "hd k0 = 0"
    "list_all (\<lambda>kv. fst kv \<noteq> [] \<and> hd (fst kv) = 0) xs" by auto
  from p(1) have n: "map_of xs k0 = None" by (simp add: map_of_eq_None_iff)
  from Cons.IH [OF p(2,5), of "AList.update k0 (v0 AND MASK) t"] n x upd_record_rec_of [OF p(3,4)]
  show ?case by (auto simp: map_of_update_eq split: option.splits)
qed

lemma distinct_fold_upd:
  "distinct (map fst t) \<Longrightarrow> distinct (map fst (fold upd_record rs t))"
  by (induction rs arbitrary: t) (simp_all add: upd_record_def distinct_update)

lemma map_of_apply_record:
  "map_of (apply_record (k0, v0) m) k =
     (if k = k0 then
        (if v0 = WHITEOUT \<or> v0 = OPAQUE then Some v0
         else if v0 = NOTEXIST then None else map_of m k)
      else map_of m k)"
  by (simp add: apply_record_def map_of_update_eq delete_conv')

lemma map_of_fold_apply:
  "distinct (map fst t) \<Longrightarrow>
     map_of (fold apply_record t m) k =
       (case map_of t k of
          None \<Rightarrow> map_of m k
        | Some v \<Rightarrow>
            if v = WHITEOUT \<or> v = OPAQUE then Some v
            else if v = NOTEXIST then None else map_of m k)"
proof (induction t arbitrary: m)
  case Nil
  show ?case by simp
next
  case (Cons x t)
  obtain k0 v0 where x: "x = (k0, v0)" by (cases x)
  from Cons.prems x have p: "k0 \<notin> fst ` set t" "distinct (map fst t)" by auto
  from p(1) have n: "map_of t k0 = None" by (simp add: map_of_eq_None_iff)
  from Cons.IH [OF p(2), of "apply_record (k0, v0) m"] n x
  show ?case by (auto simp: map_of_apply_record split: option.splits)
qed

lemma distinct_range_order: "distinct (map fst (range_order r m)) = distinct (map fst m)"
proof -
  have "mset (map fst (range_order r m)) = mset (map fst m)" by (simp add: range_order_mset)
  then show ?thesis by (rule mset_eq_imp_distinct_iff)
qed

lemma map_of_range_order: "distinct (map fst m) \<Longrightarrow> map_of (range_order r m) = map_of m"
  using map_of_inject_set [of "range_order r m" m]
  by (simp add: distinct_range_order range_order_set)

lemma framed_recs: "framed (map rec_of xs)"
  by (simp add: framed_def list_all_iff rec_of_def case_prod_beta dirt_or_dirt dirt_neq_0)

lemma OpenPathmap_mem:
  "OpenPathmap mem_ops sha (Some s) caseins =
     (case read sha (new_pathmap caseins (Some s)) \<lparr>rbytes = content s, rlast = 0\<rparr> of
        (n, pm) \<Rightarrow> if 0 > n then (n, None) else (0, Some pm))"
  by (simp add: OpenPathmap_def mem_ops_def)

lemma OpenPathmap_empty:
  "content s = [] \<Longrightarrow>
     OpenPathmap mem_ops sha (Some s) caseins = (0, Some (new_pathmap caseins (Some s)))"
  by (simp add: OpenPathmap_mem read_eof)

lemma Write_nothing_dirty:
  assumes "fs pm = Some s" "ofs pm = 0" "dl pm = []"
  shows "Write mem_ops sha pm sync ro = (0, pm\<lparr>fs := Some s\<rparr>)"
proof -
  have wb: "writeBegin pm True = ([], pm\<lparr>vm := vm pm, dl := []\<rparr>)"
    using assms(3) by (simp add: writeBegin_def)
  have r: "range_order (ro 0) [] = []" by (simp add: range_order_def)
  from assms show ?thesis
    by (simp add: Write_def Let_def writeTransaction_def wb r wt_io_empty writeEnd_def)
qed

lemma reload_written:
  assumes "distinct (map fst vmo)" "keys16 vmo" "list_all (\<lambda>kv. hd (fst kv) = 0) vmo" "vmo \<noteq> []"
    and "content s = concat (chunk_images sha 0x31 [] 0x41 (map rec_of (range_order r vmo)))"
  shows "\<exists>pm2. OpenPathmap mem_ops sha (Some s) caseins = (0, Some pm2) \<and>
     (\<forall>k. map_of (vm pm2) k =
        (case map_of vmo k of
           None \<Rightarrow> None
         | Some v \<Rightarrow> if v AND MASK = WHITEOUT \<or> v AND MASK = OPAQUE then Some (v AND MASK)
                     else None))"
proof -
  define xs where "xs = range_order r vmo"
  define rs where "rs = map rec_of xs"
  define tmp where "tmp = fold upd_record rs []"
  define pmN :: "memfs Pathmap" where "pmN = new_pathmap caseins (Some s)"
  have dx: "distinct (map fst xs)" using assms(1) by (simp add: xs_def distinct_range_order)
  have kx: "keys16 xs" using assms(2) by (simp add: xs_def keys16_range_order)
  have hx: "list_all (\<lambda>kv. fst kv \<noteq> [] \<and> hd (fst kv) = 0) xs"
    using assms(2,3) by (auto simp: xs_def list_all_iff range_order_set keys16_def)
  have r16: "records16 rs" unfolding rs_def by (rule records16_recs [OF kx])
  have fr: "framed rs" unfolding rs_def by (rule framed_recs)
  have rb: "rbytes \<lparr>rbytes = content s, rlast = 0\<rparr> = concat (chunk_images sha 0x31 [] 0x41 rs)"
    "rlast \<lparr>rbytes = content s, rlast = 0\<rparr> = 0"
    using assms(5) by (simp_all add: rs_def xs_def)
  have c: "(0x41::byte) = 0x41 \<or> (0x41::byte) = 0x53" by simp
  note rd = read_images [OF r16 fr c rb, of pmN]
  define pm2 where "pm2 = pmN\<lparr>ofs := ofs pmN + int (length (concat (chunk_images sha 0x31 [] 0x41 rs))),
     vm := fold apply_record tmp []\<rparr>"
  have rd': "read sha pmN \<lparr>rbytes = content s, rlast = 0\<rparr> = (1, pm2)"
    unfolding rd pm2_def tmp_def by (simp add: pmN_def new_pathmap_def)
  have op: "OpenPathmap mem_ops sha (Some s) caseins = (0, Some pm2)"
    by (simp add: OpenPathmap_mem rd' [unfolded pmN_def])
  have dt: "distinct (map fst tmp)" unfolding tmp_def by (rule distinct_fold_upd) simp
  have mt: "map_of tmp k = (case map_of vmo k of Some v \<Rightarrow> Some (v AND MASK) | None \<Rightarrow> None)" for k
    unfolding tmp_def rs_def
    using map_of_fold_upd [OF dx hx, of "[]" k] map_of_range_order [OF assms(1), of r]
    by (simp add: xs_def split: option.splits)
  have "map_of (vm pm2) k =
      (case map_of vmo k of
         None \<Rightarrow> None
       | Some v \<Rightarrow> if v AND MASK = WHITEOUT \<or> v AND MASK = OPAQUE then Some (v AND MASK)
                   else None)" for k
    using map_of_fold_apply [OF dt, of "[]" k] mt [of k]
    by (simp add: pm2_def split: option.splits)
  with op show ?thesis by blast
qed

lemma doi_kind:
  "(if delete_or_insert v AND MASK = WHITEOUT \<or> delete_or_insert v AND MASK = OPAQUE
    then Some (delete_or_insert v AND MASK) else None) =
   (if durable v then Some (v AND MASK) else None)"
  by (simp add: delete_or_insert_def durable_def vis_defs)

lemma roundtrip_run:
  assumes "list_all (\<lambda>pv. snd pv \<le> MAXVIS) ops"
  shows "\<exists>n pm pm2. roundtrip sha fc caseins ops ro = Some (n, pm, pm2) \<and> 0 \<le> n \<and>
     Sets sha fc (new_pathmap caseins (Some empty_file)) ops = Inr pm \<and>
     (\<forall>k. map_of (vm pm2) k = persisted (vm pm) k)"
proof -
  define pm0 :: "memfs Pathmap" where "pm0 = new_pathmap caseins (Some empty_file)"
  have o0: "OpenPathmap mem_ops sha (Some empty_file) caseins = (0, Some pm0)"
    unfolding pm0_def by (rule OpenPathmap_empty) (simp add: empty_file_def)
  from Sets_runs [OF assms, of sha fc pm0] obtain pm where s: "Sets sha fc pm0 ops = Inr pm"
    by blast
  from Sets_inv [OF set_inv_new s [unfolded pm0_def]]
  have inv: "set_inv pm" and f: "fs pm = Some empty_file" "ofs pm = 0"
    by (simp_all add: new_pathmap_def)
  from inv have i: "distinct (map fst (vm pm))" "distinct (dl pm)"
    "\<And>k. k \<in> set (dl pm) \<longleftrightarrow> (\<exists>v. map_of (vm pm) k = Some v \<and> v AND DIRT \<noteq> 0)"
    "\<And>k v. map_of (vm pm) k = Some v \<Longrightarrow> durable v \<Longrightarrow> v AND DIRT \<noteq> 0"
    "\<And>k. k \<in> set (dl pm) \<Longrightarrow> length k = 16 \<and> hd k = 0"
    by (auto simp: set_inv_def)
  define vmo where "vmo = map (\<lambda>k. (k, delete_or_insert (fst (lookup (vm pm) k)))) (dl pm)"
  have wv: "fst (writeBegin pm True) = vmo"
    unfolding vmo_def by (rule writeBegin_incr_vmo [OF i(2)])
  \<comment> \<open>what the map to be written holds for a key\<close>
  have mv: "(case map_of vmo k of
         None \<Rightarrow> None
       | Some v \<Rightarrow> if v AND MASK = WHITEOUT \<or> v AND MASK = OPAQUE then Some (v AND MASK)
                   else None) = persisted (vm pm) k" for k
  proof (cases "k \<in> set (dl pm)")
    case True
    with i(3) [of k] obtain v where v: "map_of (vm pm) k = Some v" by blast
    from True have "map_of vmo k = Some (delete_or_insert (fst (lookup (vm pm) k)))"
      by (simp add: vmo_def map_of_map_restrict)
    with v doi_kind [of v] show ?thesis by (simp add: lookup_def persisted_def)
  next
    case False
    then have n: "map_of vmo k = None" by (simp add: vmo_def map_of_map_restrict)
    show ?thesis
    proof (cases "map_of (vm pm) k")
      case None
      with n show ?thesis by (simp add: persisted_def)
    next
      case (Some v)
      with False i(3) [of k] have "v AND DIRT = 0" by auto
      with i(4) [OF Some] have "\<not> durable v" by auto
      with n Some show ?thesis by (simp add: persisted_def)
    qed
  qed
  show ?thesis
  proof (cases "dl pm = []")
    case True
    note w = Write_nothing_dirty [OF f True, of sha True ro]
    have o2: "OpenPathmap mem_ops sha (Some empty_file) caseins = (0, Some pm0)" by (rule o0)
    have "map_of (vm pm0) k = persisted (vm pm) k" for k
      using mv [of k] True by (simp add: vmo_def pm0_def new_pathmap_def)
    with o0 s w f show ?thesis
      by (simp add: roundtrip_def pm0_def)
  next
    case False
    obtain pm1 where wb: "writeBegin pm True = (vmo, pm1)"
      using wv by (cases "writeBegin pm True") simp
    have dv: "distinct (map fst vmo)" using i(2) by (simp add: vmo_def comp_def)
    have kv: "keys16 vmo" using i(5) by (simp add: vmo_def keys16_def list_all_iff)
    have hv: "list_all (\<lambda>kv. hd (fst kv) = 0) vmo" using i(5) by (simp add: vmo_def list_all_iff)
    have ne: "vmo \<noteq> []" using False by (simp add: vmo_def)
    have nb: "\<not> bloated pm" "0 \<le> ofs pm" by (simp_all add: bloated_def f)
    define imgs where "imgs = chunk_images sha 0x31 [] 0x41 (map rec_of (range_order (ro 0) vmo))"
    define s1 where "s1 = empty_file\<lparr>content := pwrite (content empty_file) (nat (ofs pm)) (concat imgs),
        events := events empty_file @ write_events (ofs pm) imgs @ sync_events True\<rparr>"
    have w: "Write mem_ops sha pm True ro =
        (1, pm1\<lparr>fs := Some s1, ofs := ofs pm + int (length (concat imgs))\<rparr>)"
      unfolding s1_def
      by (rule Write_incr_mem [where ro = ro, OF f(1) nb wb kv ne imgs_def])
    have cs: "content s1 = concat (chunk_images sha 0x31 [] 0x41 (map rec_of (range_order (ro 0) vmo)))"
      by (simp add: s1_def f empty_file_def pwrite_def imgs_def)
    from reload_written [OF dv kv hv ne cs, of caseins] obtain pm2 where
      o: "OpenPathmap mem_ops sha (Some s1) caseins = (0, Some pm2)"
      and m: "\<And>k. map_of (vm pm2) k =
        (case map_of vmo k of
           None \<Rightarrow> None
         | Some v \<Rightarrow> if v AND MASK = WHITEOUT \<or> v AND MASK = OPAQUE then Some (v AND MASK)
                     else None)"
      by blast
    from m mv have "map_of (vm pm2) k = persisted (vm pm) k" for k by simp
    with o0 s w o show ?thesis
      by (simp add: roundtrip_def pm0_def)
  qed
qed

section \<open>Properties of the in-memory operations\<close>

text \<open>
  C10. A path that does not begin with a slash never reaches a lookup in \<open>Get\<close>: the
  result is \<open>(False, UNKNOWN)\<close> whatever the map holds, also right after
  \<open>Set path WHITEOUT\<close>, when \<open>TryGet\<close> on the same path finds \<open>(WHITEOUT, True)\<close>.
\<close>

theorem Get_relative_bypass:
  "\<not> absolute path \<Longrightarrow>
     Get sha fc pm path = (False, UNKNOWN) \<and>
     (case Set sha fc pm path WHITEOUT of
        Inl e \<Rightarrow> False
      | Inr pm' \<Rightarrow> Get sha fc pm' path = (False, UNKNOWN) \<and> TryGet sha fc pm' path = (WHITEOUT, True))"
proof -
  assume r: "\<not> absolute path"
  have "WHITEOUT \<le> MAXVIS" by (simp add: vis_defs)
  from Set_TryGet [OF this] obtain pm' where
    "Set sha fc pm path WHITEOUT = Inr pm'" "TryGet sha fc pm' path = (WHITEOUT, True)"
    by blast
  then show ?thesis using r by (simp add: Get_relative)
qed

theorem Get_relative_bypass_witness:
  "\<not> absolute ''a'' \<and>
   Get idsum id pm_empty ''a'' = (False, UNKNOWN) \<and>
   (case Set idsum id pm_empty ''a'' WHITEOUT of
      Inl e \<Rightarrow> False
    | Inr pm' \<Rightarrow> Get idsum id pm' ''a'' = (False, UNKNOWN) \<and> TryGet idsum id pm' ''a'' = (WHITEOUT, True))"
proof -
  have r: "\<not> absolute ''a''" by (simp add: absolute_def)
  show ?thesis
    using r Get_relative_bypass [OF r, of idsum id pm_empty]
    by simp
qed

text \<open>
  C5. The common setter compares kinds after collapsing every value up to \<open>MAXIDX\<close>, which
  is \<open>NOTEXIST\<close> itself: on a clean cell that holds the index value 0,
  \<open>Set path NOTEXIST\<close> stores \<open>NOTEXIST\<close> and leaves the path clean and the dirty list
  empty.
\<close>

theorem Set_NOTEXIST_on_clean_index:
  "case Set idsum id pm_empty ''/p'' 0 of
     Inl e \<Rightarrow> False
   | Inr pm1 \<Rightarrow>
       TryGet idsum id pm1 ''/p'' = (0, True) \<and> \<not> IsDirty idsum id pm1 ''/p'' \<and>
       (case Set idsum id pm1 ''/p'' NOTEXIST of
          Inl e \<Rightarrow> False
        | Inr pm2 \<Rightarrow>
            TryGet idsum id pm2 ''/p'' = (NOTEXIST, True) \<and> \<not> IsDirty idsum id pm2 ''/p'' \<and>
            dl pm2 = [])"
  by (simp add: Set_def SetIf_def TryGet_def IsDirty_def lookup_def pm_set_def Let_def
      pm_empty_def new_pathmap_def vis_defs)

text \<open>
  C6, for relative paths: \<open>a\<close> is an ancestor prefix of \<open>a/b\<close> and has been set opaque, yet
  \<open>Get\<close> on \<open>a/b\<close> answers \<open>(False, UNKNOWN)\<close>.
\<close>

theorem ancestor_opaque_relative_counterexample:
  "ancestor_prefix ''a'' ''a/b'' \<and>
   (case Set idsum id pm_empty ''a'' OPAQUE of
      Inl e \<Rightarrow> False
    | Inr pm1 \<Rightarrow>
        TryGet idsum id pm1 ''a'' = (OPAQUE, True) \<and>
        Get idsum id pm1 ''a/b'' = (False, UNKNOWN))"
  by code_simp

text \<open>
  C6, amended: for every path \<open>p\<close> that begins with a slash and every ancestor prefix
  \<open>a\<close> of \<open>p\<close>, after \<open>Set a OPAQUE\<close> and any later \<open>Set\<close> calls on paths whose key
  differs from the key of \<open>a\<close>, \<open>Get p\<close> returns \<open>isopq = True\<close>.
\<close>

theorem ancestor_opaque_absolute:
  assumes "absolute p" and "ancestor_prefix a p"
    and "\<forall>(q, v) \<in> set ops.
           ComputePathkey sha fc q (Caseins pm) \<noteq> ComputePathkey sha fc a (Caseins pm)"
  shows "case Set sha fc pm a OPAQUE of
           Inl e \<Rightarrow> False
         | Inr pm1 \<Rightarrow>
             (case Sets sha fc pm1 ops of Inl e \<Rightarrow> True | Inr pm2 \<Rightarrow> fst (Get sha fc pm2 p))"
proof -
  have "OPAQUE \<le> MAXVIS" by (simp add: vis_defs)
  from Set_TryGet [OF this] obtain pm1 where s: "Set sha fc pm a OPAQUE = Inr pm1" by blast
  from Set_stores [OF s] obtain x where
    x: "map_of (vm pm1) (ComputePathkey sha fc a (Caseins pm)) = Some x" "x AND MASK = OPAQUE"
    and c: "Caseins pm1 = Caseins pm" by blast
  have "fst (Get sha fc pm2 p)" if r: "Sets sha fc pm1 ops = Inr pm2" for pm2
  proof -
    from assms(3) c have "\<forall>(q, v) \<in> set ops.
        ComputePathkey sha fc q (Caseins pm1) \<noteq> ComputePathkey sha fc a (Caseins pm)" by simp
    from Sets_other [OF r this] x c have
      "map_of (vm pm2) (ComputePathkey sha fc a (Caseins pm2)) = Some x" by simp
    from Get_opaque_state [OF assms(1,2) this x(2)] show ?thesis .
  qed
  with s show ?thesis by (simp split: sum.splits)
qed

theorem ancestor_opaque_absolute_witness:
  "absolute ''/d/e/f'' \<and> ancestor_prefix ''/d'' ''/d/e/f'' \<and>
   (case Set idsum id pm_empty ''/d'' OPAQUE of
      Inl e \<Rightarrow> False
    | Inr pm1 \<Rightarrow>
        (case Sets idsum id pm1 [(''/d/e/f'', 2)] of
           Inl e \<Rightarrow> False
         | Inr pm2 \<Rightarrow> fst (Get idsum id pm2 ''/d/e/f'')))"
proof -
  have h1: "absolute ''/d/e/f''" by code_simp
  have h2: "ancestor_prefix ''/d'' ''/d/e/f''" by code_simp
  have "ComputePathkey idsum id ''/d/e/f'' (Caseins pm_empty)
      \<noteq> ComputePathkey idsum id ''/d'' (Caseins pm_empty)" by code_simp
  then have h3: "\<forall>(q, v) \<in> set [(''/d/e/f'', 2 :: byte)].
      ComputePathkey idsum id q (Caseins pm_empty)
        \<noteq> ComputePathkey idsum id ''/d'' (Caseins pm_empty)" by simp
  have r: "case Set idsum id pm_empty ''/d'' OPAQUE of
      Inl e \<Rightarrow> False
    | Inr pm1 \<Rightarrow> (case Sets idsum id pm1 [(''/d/e/f'', 2)] of Inl e \<Rightarrow> False | Inr pm2 \<Rightarrow> True)"
    by code_simp
  show ?thesis
    using ancestor_opaque_absolute [OF h1 h2 h3] h1 h2 r
    by (auto split: sum.splits)
qed

text \<open>
  C9. In every state a path map can reach (opened over any storage and any file
  contents, then any sequence of \<open>Set\<close>, \<open>SetIf\<close>, \<open>Write\<close> and \<open>Purge\<close>, whatever the
  storage answers), a key that is present in the map has a cell whose kind is not
  \<open>UNKNOWN\<close>.
\<close>

theorem no_unknown_invariant:
  "reachable ops sha fc pm \<Longrightarrow> map_of (vm pm) k = Some v \<Longrightarrow> v AND MASK \<noteq> UNKNOWN"
proof -
  assume r: "reachable ops sha fc pm" and m: "map_of (vm pm) k = Some v"
  from r have "no_unknown (vm pm)" by (rule reachable_no_unknown)
  moreover from m have "(k, v) \<in> set (vm pm)" by (rule map_of_SomeD)
  ultimately show ?thesis by (auto simp: no_unknown_def list_all_iff)
qed
theorem no_unknown_invariant_witness:
  "reachable mem_ops idsum id
     \<lparr>Caseins = False, vm = [(0 # tl demo_record, WHITEOUT)], dl = [],
      fs = Some \<lparr>content = demo_log, events = []\<rparr>, ofs = 32\<rparr> \<and>
   map_of [(0 # tl demo_record, WHITEOUT)] (0 # tl demo_record) = Some WHITEOUT \<and>
   WHITEOUT AND MASK \<noteq> UNKNOWN"
proof -
  have "OpenPathmap mem_ops idsum (Some \<lparr>content = demo_log, events = []\<rparr>) False =
      (0, Some \<lparr>Caseins = False, vm = [(0 # tl demo_record, WHITEOUT)], dl = [],
         fs = Some \<lparr>content = demo_log, events = []\<rparr>, ofs = 32\<rparr>)"
    by code_simp
  then have r: "reachable mem_ops idsum id
     \<lparr>Caseins = False, vm = [(0 # tl demo_record, WHITEOUT)], dl = [],
      fs = Some \<lparr>content = demo_log, events = []\<rparr>, ofs = 32\<rparr>"
    by (rule reach_Open)
  have m: "map_of (vm \<lparr>Caseins = False, vm = [(0 # tl demo_record, WHITEOUT)], dl = [],
      fs = Some \<lparr>content = demo_log, events = []\<rparr>, ofs = 32\<rparr>) (0 # tl demo_record) = Some WHITEOUT"
    by simp
  from no_unknown_invariant [OF r m] r show ?thesis by simp
qed

section \<open>Properties of Write\<close>

text \<open>
  C3. Dirty-set restoration on a failed \<^verbatim>\<open>Write\<close>. The claim has every key of the map to
  be written whose cell is clean when the transaction fails made dirty again, in
  particular a key that was dirty with an index or \<open>NOTEXIST\<close> kind. The code does not do
  that for such a key: \<^verbatim>\<open>writeBegin\<close> puts it into the map to be written as plain
  \<open>NOTEXIST\<close>, without the dirty bit that the sibling branch keeps on a whiteout or an
  opaque directory, and \<^verbatim>\<open>writeEnd\<close> passes over every entry written without that bit.
  Here \<open>/p\<close> is whited out and then set to the index value 0 on a storage whose writes
  fail: before \<^verbatim>\<open>Write\<close> the path is dirty and on the dirty list, its key is in the map
  to be written and its cell is cleared by \<^verbatim>\<open>writeBegin\<close>; \<^verbatim>\<open>Write\<close> returns \<open>-EIO\<close>, and
  afterwards the path is clean and the dirty list is empty, so the next \<^verbatim>\<open>Write\<close> has
  nothing to redo.
\<close>

theorem failed_Write_loses_dirty_index_key:
  "(case Sets idsum id pm_unwritable [(''/p'', WHITEOUT), (''/p'', 0)] of
      Inl e \<Rightarrow> False
    | Inr pm \<Rightarrow>
        IsDirty idsum id pm ''/p'' \<and> TryGet idsum id pm ''/p'' = (0, True) \<and>
        dl pm = [key_p] \<and>
        map_of (fst (writeBegin pm True)) key_p = Some NOTEXIST \<and>
        map_of (vm (snd (writeBegin pm True))) key_p = Some 0 \<and>
        (case Write failing_ops idsum pm True (\<lambda>i k. 0) of
           (n, pm') \<Rightarrow>
             n = - EIO \<and> \<not> IsDirty idsum id pm' ''/p'' \<and> dl pm' = [] \<and>
             TryGet idsum id pm' ''/p'' = (0, True)))"
  by code_simp

section \<open>Claims on the serialised log\<close>




text \<open>
  C4. Compacting rewrite step order. The claim has the first of the two transactions
  of a compacting \<^verbatim>\<open>Write\<close> incremental (dirty keys only, command A). The code calls
  \<^verbatim>\<open>writeTransaction(false, ofs, sync)\<close> and then \<^verbatim>\<open>writeTransaction(false, 0, sync)\<close>:
  both transactions are full. On the in-memory storage, for a bloated log whose map holds
  at least one whiteout or opaque key, and whatever the orders \<open>ro 0\<close> and \<open>ro 1\<close> in which
  the two transactions range over the map: \<^verbatim>\<open>Write\<close> returns 1; its first transaction
  holds the records of all whiteout and opaque keys of the map, dirty or not, in the
  order of \<open>ro 0\<close>, begins with a header 1 and ends with a chunk of command S, and is
  written at the current end of the file with no truncation after it; the second
  transaction holds the records of the same keys in the order of \<open>ro 1\<close>, with the same
  kind of header and last chunk, is written from offset 0 and is followed by the
  truncation of the file to its end.
\<close>

theorem compacting_rewrite_two_full_transactions:
  assumes "fs pm = Some s" and "bloated pm" and "distinct (map fst (vm pm))"
    and "keys16 (vm pm)" and "durables (vm pm) \<noteq> []"
  shows "let imgs1 = chunk_images sha 0x31 [] 0x53
                       (map rec_of (range_order (ro 0) (durables (vm pm))));
             imgs2 = chunk_images sha 0x31 [] 0x53
                       (map rec_of (range_order (ro 1) (durables (vm pm))));
             len = int (length (concat imgs2))
         in case Write mem_ops sha pm sync ro of
              (n, pm') \<Rightarrow>
                n = 1 \<and> ofs pm' = len \<and>
                fs pm' = Some \<lparr>content = concat imgs2,
                  events = events s @ write_events (ofs pm) imgs1 @ sync_events sync
                    @ write_events 0 imgs2 @ sync_events sync
                    @ EvTruncate len # sync_events sync\<rparr> \<and>
                hd imgs1 ! 0 = 0x31 \<and> last imgs1 ! 1 = 0x53 \<and>
                hd imgs2 ! 0 = 0x31 \<and> last imgs2 ! 1 = 0x53"
  using Write_full_mem [OF assms refl refl, where sha = sha and sync = sync and ro = ro]
  by (simp add: Let_def chunk_images_last_cmd chunk_images_hd)

text \<open>
  An instance with two clean keys, a whiteout and an opaque directory, which the first
  transaction visits in one order and the second in the other: the two images differ.
\<close>

theorem compacting_rewrite_two_full_transactions_witness:
  "fs pm_bloated_two = Some bloated_file_two \<and> bloated pm_bloated_two \<and>
   distinct (map fst (vm pm_bloated_two)) \<and> keys16 (vm pm_bloated_two) \<and>
   durables (vm pm_bloated_two) \<noteq> [] \<and>
   (case Write mem_ops idsum pm_bloated_two True demo_ro of
      (n, pm') \<Rightarrow>
        n = 1 \<and> ofs pm' = 48 \<and>
        fs pm' = Some \<lparr>content = full_image [rec_o, rec_w],
          events = [EvWrite 16400 (full_image [rec_w, rec_o]), EvFsync,
                    EvWrite 0 (full_image [rec_o, rec_w]), EvFsync,
                    EvTruncate 48, EvFsync]\<rparr>) \<and>
   full_image [rec_w, rec_o] \<noteq> full_image [rec_o, rec_w]"
proof -
  have h1: "fs pm_bloated_two = Some bloated_file_two" by (simp add: pm_bloated_two_def)
  have h2: "bloated pm_bloated_two" by (simp add: pm_bloated_two_def bloated_def)
  have h3: "distinct (map fst (vm pm_bloated_two))" by code_simp
  have h4: "keys16 (vm pm_bloated_two)" by code_simp
  have h5: "durables (vm pm_bloated_two) \<noteq> []" by code_simp
  have i1: "chunk_images idsum 0x31 [] 0x53
      (map rec_of (range_order (demo_ro 0) (durables (vm pm_bloated_two)))) = [full_image [rec_w, rec_o]]"
    by code_simp
  have i2: "chunk_images idsum 0x31 [] 0x53
      (map rec_of (range_order (demo_ro (Suc 0)) (durables (vm pm_bloated_two)))) = [full_image [rec_o, rec_w]]"
    by code_simp
  have l: "length (full_image [rec_o, rec_w]) = 48" by code_simp
  have ne: "full_image [rec_w, rec_o] \<noteq> full_image [rec_o, rec_w]" by code_simp
  have e: "events bloated_file_two = []" "ofs pm_bloated_two = 16400"
    by (simp_all add: bloated_file_two_def pm_bloated_two_def)
  from compacting_rewrite_two_full_transactions [OF h1 h2 h3 h4 h5,
      where sha = idsum and sync = True and ro = demo_ro]
  have "case Write mem_ops idsum pm_bloated_two True demo_ro of
      (n, pm') \<Rightarrow>
        n = 1 \<and> ofs pm' = 48 \<and>
        fs pm' = Some \<lparr>content = full_image [rec_o, rec_w],
          events = [EvWrite 16400 (full_image [rec_w, rec_o]), EvFsync,
                    EvWrite 0 (full_image [rec_o, rec_w]), EvFsync,
                    EvTruncate 48, EvFsync]\<rparr>"
    by (simp add: Let_def i1 i2 l e sync_events_def split: prod.splits)
  with h1 h2 h3 h4 h5 ne show ?thesis by simp
qed

text \<open>
  Against the claim as it stands: a bloated log whose map holds one clean whiteout and
  no dirty key. The first write of \<^verbatim>\<open>Write\<close> goes to the end of the file (offset 16400)
  and is a chunk of command S that holds the record of the clean key.
\<close>

theorem compacting_first_transaction_counterexample:
  "bloated pm_bloated_mem \<and> dl pm_bloated_mem = [] \<and>
   (case Write mem_ops idsum pm_bloated_mem True (\<lambda>i k. 0) of
      (n, pm') \<Rightarrow>
        (case fs pm' of
           None \<Rightarrow> False
         | Some s' \<Rightarrow> take 1 (events s') = [EvWrite 16400 demo_log_S])) \<and>
   demo_log_S ! 1 = 0x53 \<and> drop 16 demo_log_S = rec_of (demo_rkey, WHITEOUT)"
proof -
  have h1: "fs pm_bloated_mem = Some bloated_file" by (simp add: pm_bloated_mem_def)
  have h2: "bloated pm_bloated_mem" by (simp add: pm_bloated_mem_def bloated_def)
  have h3: "distinct (map fst (vm pm_bloated_mem))" by (simp add: pm_bloated_mem_def)
  have h4: "keys16 (vm pm_bloated_mem)" by code_simp
  have h5: "durables (vm pm_bloated_mem) \<noteq> []" by code_simp
  have i: "chunk_images idsum 0x31 [] 0x53
      (map rec_of (range_order (\<lambda>k. 0) (durables (vm pm_bloated_mem)))) = [demo_log_S]"
    by code_simp
  have e: "events bloated_file = []" "ofs pm_bloated_mem = 16400" "dl pm_bloated_mem = []"
    by (simp_all add: bloated_file_def pm_bloated_mem_def)
  have d: "demo_log_S ! 1 = 0x53" "drop 16 demo_log_S = rec_of (demo_rkey, WHITEOUT)"
    by code_simp+
  from Write_full_mem [OF h1 h2 h3 h4 h5 refl refl, where sha = idsum and sync = True
      and ro = "\<lambda>i k. 0"] h2 e d
  show ?thesis by (simp add: i)
qed


text \<open>
  C7. Compaction with nothing durable. The claim has the \<^verbatim>\<open>Write\<close> that follows 2000
  persisted whiteouts set back to index kinds compact the log, truncate the file to 32 or
  16 bytes and return 0. In the code the keys set back stay in the map, so the map has as
  many entries as the log has records but one, and the log does not count as bloated: for
  every list of up to 4095 paths with different keys (at least one), whited out and
  written on an empty file and then set to index values (values up to \<open>NOTEXIST\<close>), the
  second \<^verbatim>\<open>Write\<close> is incremental. It returns 1 and appends at the end of the file one
  chunk of command A with a delete record (kind \<open>NOTEXIST\<close>) for every path; nothing is
  truncated, and the file is twice as long as before. The records of each of the two
  transactions come in the order in which its loop ranges over the map (\<open>ro1 0\<close> for the
  first \<^verbatim>\<open>Write\<close>, \<open>ro2 0\<close> for the second), whatever these orders are.
\<close>

theorem whiteouts_back_to_index_incremental:
  assumes "distinct (map (\<lambda>p. ComputePathkey sha fc p caseins) ps)"
    and "ps \<noteq> []" and "length ps \<le> 4095" and "list_all (\<lambda>p. idx p \<le> NOTEXIST) ps"
  shows "case whiteouts_then_index sha fc caseins ps idx sync ro1 ro2 of
           None \<Rightarrow> False
         | Some (n1, pm3, n3, pm4) \<Rightarrow>
             n1 = 1 \<and> ofs pm3 = 16 * (int (length ps) + 1) \<and> \<not> bloated pm3 \<and> n3 = 1 \<and>
             (case fs pm4 of
                None \<Rightarrow> False
              | Some s \<Rightarrow>
                  length (content s) = 32 * (length ps + 1) \<and>
                  truncations (events s) = [] \<and>
                  chunks_written (events s) =
                    [whiteout_image sha fc caseins (visit_order sha fc caseins (ro1 0) ps)
                       (DIRT OR WHITEOUT),
                     whiteout_image sha fc caseins (visit_order sha fc caseins (ro2 0) ps)
                       NOTEXIST] \<and>
                  drop (16 * (length ps + 1)) (content s) =
                    whiteout_image sha fc caseins (visit_order sha fc caseins (ro2 0) ps) NOTEXIST \<and>
                  mset (visit_order sha fc caseins (ro1 0) ps) = mset ps \<and>
                  mset (visit_order sha fc caseins (ro2 0) ps) = mset ps)"
proof -
  let ?i1 = "whiteout_image sha fc caseins (visit_order sha fc caseins (ro1 0) ps) (DIRT OR WHITEOUT)"
  let ?i2 = "whiteout_image sha fc caseins (visit_order sha fc caseins (ro2 0) ps) NOTEXIST"
  from whiteouts_then_index_run [OF assms, where sync = sync and ?ro1.0 = ro1 and ?ro2.0 = ro2]
  obtain pm3 pm4 where
    r: "whiteouts_then_index sha fc caseins ps idx sync ro1 ro2 = Some (1, pm3, 1, pm4)"
      "\<not> bloated pm3" "ofs pm3 = 16 * (int (length ps) + 1)"
      "fs pm4 = Some \<lparr>content = ?i1 @ ?i2,
        events = EvWrite 0 ?i1 # sync_events sync
          @ EvWrite (16 * (int (length ps) + 1)) ?i2 # sync_events sync\<rparr>"
    by blast
  have c: "chunks_written (sync_events sync) = []" "truncations (sync_events sync) = []"
    "\<And>es. chunks_written (sync_events sync @ es) = chunks_written es"
    by (simp_all add: sync_events_def)
  have m: "mset (visit_order sha fc caseins (ro1 0) ps) = mset ps"
    "mset (visit_order sha fc caseins (ro2 0) ps) = mset ps"
    by (simp_all add: visit_order_def)
  from r m show ?thesis
    by (simp add: whiteout_image_length visit_order_length c truncations_sync)
qed

theorem whiteouts_back_to_index_incremental_witness:
  "distinct (map (\<lambda>p. ComputePathkey idsum id p False) [''/a'', ''/b'']) \<and>
   [''/a'', ''/b''] \<noteq> [] \<and> length [''/a'', ''/b''] \<le> 4095 \<and>
   list_all (\<lambda>p. (0::byte) \<le> NOTEXIST) [''/a'', ''/b''] \<and>
   (case whiteouts_then_index idsum id False [''/a'', ''/b''] (\<lambda>p. 0) True (\<lambda>i k. 0) demo_ro of
      None \<Rightarrow> False
    | Some (n1, pm3, n3, pm4) \<Rightarrow>
        n1 = 1 \<and> ofs pm3 = 48 \<and> n3 = 1 \<and>
        (case fs pm4 of
           None \<Rightarrow> False
         | Some s \<Rightarrow> length (content s) = 96 \<and> truncations (events s) = []))"
proof -
  have h1: "distinct (map (\<lambda>p. ComputePathkey idsum id p False) [''/a'', ''/b''])" by code_simp
  have h2: "[''/a'', ''/b''] \<noteq> []" "length [''/a'', ''/b''] \<le> 4095" by simp_all
  have h3: "list_all (\<lambda>p. (0::byte) \<le> NOTEXIST) [''/a'', ''/b'']" by simp
  from whiteouts_back_to_index_incremental [OF h1 h2 h3, where sync = True
      and ?ro1.0 = "\<lambda>i k. 0" and ?ro2.0 = demo_ro]
  have "case whiteouts_then_index idsum id False [''/a'', ''/b''] (\<lambda>p. 0) True (\<lambda>i k. 0) demo_ro of
      None \<Rightarrow> False
    | Some (n1, pm3, n3, pm4) \<Rightarrow>
        n1 = 1 \<and> ofs pm3 = 48 \<and> n3 = 1 \<and>
        (case fs pm4 of
           None \<Rightarrow> False
         | Some s \<Rightarrow> length (content s) = 96 \<and> truncations (events s) = [])"
    by (auto split: option.splits)
  with h1 h2 h3 show ?thesis by simp
qed

text \<open>
  Against the claim as it stands, with the 2000 paths \<open>demo_path 0\<close>, ..., \<open>demo_path 1999\<close>
  and the index value 0: before the second \<^verbatim>\<open>Write\<close> the log is 32016 bytes long and not
  bloated; that \<^verbatim>\<open>Write\<close> returns 1, leaves a file of 64032 bytes and truncates nothing.
\<close>

theorem whiteouts_2000_back_to_index_counterexample:
  "length (map demo_path [0..<2000]) = 2000 \<and>
   (case whiteouts_then_index idsum id False (map demo_path [0..<2000]) (\<lambda>p. 0) True
           (\<lambda>i k. 0) (\<lambda>i k. 0) of
      None \<Rightarrow> False
    | Some (n1, pm3, n3, pm4) \<Rightarrow>
        n1 = 1 \<and> ofs pm3 = 32016 \<and> \<not> bloated pm3 \<and> n3 = 1 \<and> ofs pm4 = 64032 \<and>
        (case fs pm4 of
           None \<Rightarrow> False
         | Some s \<Rightarrow> length (content s) = 64032 \<and> truncations (events s) = []))"
proof -
  let ?ps = "map demo_path [0..<2000]"
  let ?i1 = "whiteout_image idsum id False (visit_order idsum id False (\<lambda>k. 0) ?ps) (DIRT OR WHITEOUT)"
  let ?i2 = "whiteout_image idsum id False (visit_order idsum id False (\<lambda>k. 0) ?ps) NOTEXIST"
  have d: "distinct (map (\<lambda>p. ComputePathkey idsum id p False) ?ps)"
  proof -
    have "demo_key = (\<lambda>i. ComputePathkey idsum id (demo_path i) False)"
      by (rule ext) (simp add: demo_key_def)
    with distinct_demo_keys [of 2000] show ?thesis by (simp add: comp_def)
  qed
  have h2: "?ps \<noteq> []" "length ?ps \<le> 4095"
    by simp_all
  have h3: "list_all (\<lambda>p. (0::byte) \<le> NOTEXIST) ?ps"
    by (simp add: list_all_iff)
  from whiteouts_then_index_run [OF d h2 h3, where sync = True and ?ro1.0 = "\<lambda>i k. 0"
      and ?ro2.0 = "\<lambda>i k. 0"]
  obtain pm3 pm4 where
    r: "whiteouts_then_index idsum id False ?ps (\<lambda>p. 0) True (\<lambda>i k. 0) (\<lambda>i k. 0)
          = Some (1, pm3, 1, pm4)"
      "\<not> bloated pm3" "ofs pm3 = 16 * (int (length ?ps) + 1)"
      "ofs pm4 = 32 * (int (length ?ps) + 1)"
      "fs pm4 = Some \<lparr>content = ?i1 @ ?i2,
        events = EvWrite 0 ?i1 # sync_events True
          @ EvWrite (16 * (int (length ?ps) + 1)) ?i2 # sync_events True\<rparr>"
    by blast
  from r show ?thesis
    by (simp add: whiteout_image_length visit_order_length truncations_sync sync_events_def)
qed

section \<open>Claims on replay\<close>



section \<open>Claim on the round trip\<close>

text \<open>
  C1. Round trip of persistence. For every sequence of \<^verbatim>\<open>Set\<close> calls with values up to
  \<open>MAXVIS\<close> (none of them panics) on a path map opened on the empty file of the in-memory
  storage, followed by \<^verbatim>\<open>Write(true)\<close>, in whatever order its loop ranges over the map,
  and by a fresh \<^verbatim>\<open>OpenPathmap\<close> on the same file: every call returns, \<^verbatim>\<open>Write\<close> does
  not fail, and the reloaded map holds for every key \<open>k\<close> exactly \<open>persisted (vm pm) k\<close>,
  where \<open>pm\<close> is the path map when \<^verbatim>\<open>Write\<close> is called: the key is present after the
  reload if and only if its kind was \<open>WHITEOUT\<close> or \<open>OPAQUE\<close>, then with that kind and
  the dirty bit clear; a key whose kind was an index value or \<open>NOTEXIST\<close> is absent.
\<close>

theorem Sets_Write_reload:
  assumes "list_all (\<lambda>pv. snd pv \<le> MAXVIS) ops"
  shows "case roundtrip sha fc caseins ops ro of
           None \<Rightarrow> False
         | Some (n, pm, pm2) \<Rightarrow>
             0 \<le> n \<and> Sets sha fc (new_pathmap caseins (Some empty_file)) ops = Inr pm \<and>
             (\<forall>k. map_of (vm pm2) k = persisted (vm pm) k)"
  using roundtrip_run [OF assms, of sha fc caseins ro] by auto

text \<open>
  An instance with seven calls on five paths: \<open>/a\<close> is whited out and then given an index
  value, \<open>/b\<close> is made opaque twice, \<open>/c\<close> gets an index value, \<open>/d/e\<close> is whited out and
  \<open>/f\<close> is set to \<open>NOTEXIST\<close>. After the reload the map holds \<open>/b\<close> as opaque and \<open>/d/e\<close>
  as a whiteout, both clean, and nothing else.
\<close>

theorem Sets_Write_reload_witness:
  "list_all (\<lambda>pv. snd pv \<le> MAXVIS) demo_ops \<and>
   (case roundtrip idsum id False demo_ops demo_ro of
      None \<Rightarrow> False
    | Some (n, pm, pm2) \<Rightarrow>
        0 \<le> n \<and> Sets idsum id (new_pathmap False (Some empty_file)) demo_ops = Inr pm \<and>
        (\<forall>k. map_of (vm pm2) k = persisted (vm pm) k)) \<and>
   (case roundtrip idsum id False demo_ops demo_ro of
      None \<Rightarrow> False
    | Some (n, pm, pm2) \<Rightarrow>
        n = 1 \<and>
        map (\<lambda>p. map_of (vm pm) (ComputePathkey idsum id p False))
          [''/a'', ''/b'', ''/c'', ''/d/e'', ''/f'', ''/g''] =
          [Some (DIRT OR 5), Some (DIRT OR OPAQUE), Some 3, Some (DIRT OR WHITEOUT),
           Some NOTEXIST, None] \<and>
        map (\<lambda>p. map_of (vm pm2) (ComputePathkey idsum id p False))
          [''/a'', ''/b'', ''/c'', ''/d/e'', ''/f'', ''/g''] =
          [None, Some OPAQUE, None, Some WHITEOUT, None, None] \<and>
        length (vm pm2) = 2 \<and> dl pm2 = [])"
proof -
  have h: "list_all (\<lambda>pv. snd pv \<le> MAXVIS) demo_ops" by code_simp
  have g: "case roundtrip idsum id False demo_ops demo_ro of
      None \<Rightarrow> False
    | Some (n, pm, pm2) \<Rightarrow>
        n = 1 \<and>
        map (\<lambda>p. map_of (vm pm) (ComputePathkey idsum id p False))
          [''/a'', ''/b'', ''/c'', ''/d/e'', ''/f'', ''/g''] =
          [Some (DIRT OR 5), Some (DIRT OR OPAQUE), Some 3, Some (DIRT OR WHITEOUT),
           Some NOTEXIST, None] \<and>
        map (\<lambda>p. map_of (vm pm2) (ComputePathkey idsum id p False))
          [''/a'', ''/b'', ''/c'', ''/d/e'', ''/f'', ''/g''] =
          [None, Some OPAQUE, None, Some WHITEOUT, None, None] \<and>
        length (vm pm2) = 2 \<and> dl pm2 = []"
    by code_simp
  from Sets_Write_reload [OF h, of idsum id False demo_ro] h g show ?thesis by simp
qed

end
